theory Spec2Isabelle
  imports Complex_Main "HOL-Library.Sublist" "HOL-Library.Word"
begin

section \<open>Python values that fail\<close>

text \<open>
  The exceptions of the modelled code are values: a function that may raise returns
  \<open>py_error + 'a\<close>, with \<open>Inl\<close> for the exception.
\<close>

datatype py_error =
    IndexError
  | KeyError
  | ValueError
  | TypeError
  | NameError
  | AttributeError
  | NotImplementedError
  | InitializeException

text \<open>
  \<open>for_each body xs s\<close> is the loop \<^verbatim>\<open>for x in xs: s = body(x, s)\<close>; the first
  exception leaves the loop.
\<close>

fun for_each :: "('a \<Rightarrow> 's \<Rightarrow> py_error + 's) \<Rightarrow> 'a list \<Rightarrow> 's \<Rightarrow> py_error + 's" where
  "for_each body [] s = Inr s"
| "for_each body (x # xs) s =
     (case body x s of Inl e \<Rightarrow> Inl e | Inr s' \<Rightarrow> for_each body xs s')"

text \<open>
  Indexing as Python and numpy do it: a negative index counts from the end, and an index
  outside the sequence raises IndexError.
\<close>

definition py_index :: "nat \<Rightarrow> int \<Rightarrow> py_error + nat" where
  "py_index n i =
     (let j = (if i < 0 then int n + i else i)
      in if 0 \<le> j \<and> j < int n then Inr (nat j) else Inl IndexError)"

definition py_get :: "'a list \<Rightarrow> int \<Rightarrow> py_error + 'a" where
  "py_get xs i = (case py_index (length xs) i of Inl e \<Rightarrow> Inl e | Inr j \<Rightarrow> Inr (xs ! j))"

definition py_set :: "'a list \<Rightarrow> int \<Rightarrow> 'a \<Rightarrow> py_error + 'a list" where
  "py_set xs i v = (case py_index (length xs) i of Inl e \<Rightarrow> Inl e | Inr j \<Rightarrow> Inr (xs[j := v]))"

text \<open>\<^verbatim>\<open>m[i][j]\<close> and \<^verbatim>\<open>m[i][j] = v\<close> on a two-dimensional array held as a list of rows.\<close>

definition get2 :: "'a list list \<Rightarrow> int \<Rightarrow> int \<Rightarrow> py_error + 'a" where
  "get2 m i j = (case py_get m i of Inl e \<Rightarrow> Inl e | Inr row \<Rightarrow> py_get row j)"

definition set2 :: "'a list list \<Rightarrow> int \<Rightarrow> int \<Rightarrow> 'a \<Rightarrow> py_error + 'a list list" where
  "set2 m i j v =
     (case py_get m i of
        Inl e \<Rightarrow> Inl e
      | Inr row \<Rightarrow> (case py_set row j v of Inl e \<Rightarrow> Inl e | Inr row' \<Rightarrow> py_set m i row'))"

section \<open>Arnold scrambling (raster\_ipr.scramble, raster\_ipr.unscramble)\<close>

text \<open>
  One pass of \<^verbatim>\<open>scramble\<close>: \<^verbatim>\<open>N = len(matrix)\<close>, a fresh \<open>N \<times> N\<close> array of False, and the
  two loops over \<^verbatim>\<open>range(1, N+1)\<close> that store \<^verbatim>\<open>matrix[y-1][x-1]\<close> at
  \<^verbatim>\<open>scrambled[y_-1][x_-1]\<close> (the source's \<^verbatim>\<open>x_\<close>, \<^verbatim>\<open>y_\<close> are \<open>x'\<close>, \<open>y'\<close> here). Python's \<^verbatim>\<open>%\<close> with a positive modulus is \<open>mod\<close> on \<open>int\<close>.
\<close>

definition scramble_pass :: "bool list list \<Rightarrow> py_error + bool list list" where
  "scramble_pass matrix =
     (let N = int (length matrix);
          scrambled = replicate (length matrix) (replicate (length matrix) False)
      in for_each (\<lambda>y. for_each (\<lambda>x scrambled.
             let x' = (x + y) mod N;
                 y' = (x + 2 * y) mod N
             in case get2 matrix (y - 1) (x - 1) of
                  Inl e \<Rightarrow> Inl e
                | Inr v \<Rightarrow> set2 scrambled (y' - 1) (x' - 1) v) [1..N]) [1..N] scrambled)"

definition unscramble_pass :: "bool list list \<Rightarrow> py_error + bool list list" where
  "unscramble_pass scrambled =
     (let N = int (length scrambled);
          matrix = replicate (length scrambled) (replicate (length scrambled) False)
      in for_each (\<lambda>y. for_each (\<lambda>x matrix.
             let x' = (2 * x - y) mod N;
                 y' = (- x + y) mod N
             in case get2 scrambled (y - 1) (x - 1) of
                  Inl e \<Rightarrow> Inl e
                | Inr v \<Rightarrow> set2 matrix (y' - 1) (x' - 1) v) [1..N]) [1..N] matrix)"

text \<open>
  The functions themselves: \<^verbatim>\<open>iterations -= 1\<close>, one pass, and a recursive call on the
  result while \<^verbatim>\<open>iterations > 0\<close>.
\<close>

function scramble :: "bool list list \<Rightarrow> int \<Rightarrow> py_error + bool list list" where
  "scramble matrix iterations =
     (case scramble_pass matrix of
        Inl e \<Rightarrow> Inl e
      | Inr scrambled \<Rightarrow>
          if iterations - 1 > 0 then scramble scrambled (iterations - 1) else Inr scrambled)"
  by pat_completeness auto
termination
  by (relation "measure (\<lambda>(m, k). nat k)") auto

function unscramble :: "bool list list \<Rightarrow> int \<Rightarrow> py_error + bool list list" where
  "unscramble scrambled iterations =
     (case unscramble_pass scrambled of
        Inl e \<Rightarrow> Inl e
      | Inr matrix \<Rightarrow>
          if iterations - 1 > 0 then unscramble matrix (iterations - 1) else Inr matrix)"
  by pat_completeness auto
termination
  by (relation "measure (\<lambda>(m, k). nat k)") auto

declare scramble.simps [simp del] unscramble.simps [simp del]

subsection \<open>The two loops as a list of writes\<close>

definition square :: "nat \<Rightarrow> 'a list list \<Rightarrow> bool" where
  "square N m \<longleftrightarrow> length m = N \<and> (\<forall>row \<in> set m. length row = N)"

definition put2 :: "'a list list \<Rightarrow> nat \<Rightarrow> nat \<Rightarrow> 'a \<Rightarrow> 'a list list" where
  "put2 m i j v = m[i := (m ! i)[j := v]]"

definition apply_writes :: "((nat \<times> nat) \<times> 'a) list \<Rightarrow> 'a list list \<Rightarrow> 'a list list" where
  "apply_writes ws m = fold (\<lambda>((i, j), v) m. put2 m i j v) ws m"

lemma square_put2: "square N m \<Longrightarrow> i < N \<Longrightarrow> square N (put2 m i j v)"
  unfolding square_def put2_def
  by (auto dest!: set_update_subset_insert[THEN subsetD])

lemma nth_put2:
  "square N m \<Longrightarrow> a < N \<Longrightarrow> i < N \<Longrightarrow> j < N \<Longrightarrow>
   put2 m a b v ! i ! j = (if a = i \<and> b = j then v else m ! i ! j)"
  unfolding square_def put2_def by (auto simp: nth_list_update)

lemma py_index_wrap:
  "0 \<le> r \<Longrightarrow> r < int N \<Longrightarrow> py_index N (r - 1) = Inr (nat ((r - 1) mod int N))"
proof (cases "r = 0")
  case True
  assume "r < int N"
  with True have "0 < int N" by simp
  then have "(- 1) mod int N = int N - 1"
    by (simp add: zmod_minus1)
  with True \<open>0 < int N\<close> show ?thesis by (simp add: py_index_def)
next
  case False
  assume "0 \<le> r" "r < int N"
  with False have "(r - 1) mod int N = r - 1" by simp
  with False \<open>0 \<le> r\<close> \<open>r < int N\<close> show ?thesis by (simp add: py_index_def)
qed

lemma py_index_plain:
  "1 \<le> y \<Longrightarrow> y \<le> int N \<Longrightarrow> py_index N (y - 1) = Inr (nat (y - 1))"
  by (simp add: py_index_def)

lemma get2_square:
  "square N m \<Longrightarrow> 1 \<le> y \<Longrightarrow> y \<le> int N \<Longrightarrow> 1 \<le> x \<Longrightarrow> x \<le> int N \<Longrightarrow>
   get2 m (y - 1) (x - 1) = Inr (m ! nat (y - 1) ! nat (x - 1))"
  unfolding square_def get2_def py_get_def
  by (simp add: py_index_plain)

lemma set2_square:
  assumes "square N m" "0 \<le> r" "r < int N" "0 \<le> c" "c < int N"
  shows "set2 m (r - 1) (c - 1) v =
         Inr (put2 m (nat ((r - 1) mod int N)) (nat ((c - 1) mod int N)) v)"
proof -
  have N: "0 < int N" using assms by simp
  have i: "nat ((r - 1) mod int N) < N"
    using N by (simp add: nat_less_iff)
  from assms(1) i have "length (m ! nat ((r - 1) mod int N)) = N"
    unfolding square_def by simp
  with assms show ?thesis
    unfolding set2_def py_get_def py_set_def put2_def
    by (simp add: py_index_wrap square_def)
qed

lemma square_apply_writes:
  "square N m \<Longrightarrow> \<forall>w \<in> set ws. fst (fst w) < N \<Longrightarrow> square N (apply_writes ws m)"
  unfolding apply_writes_def
  by (induction ws arbitrary: m) (auto simp: square_put2)

lemma apply_writes_append:
  "apply_writes (ws @ ws') m = apply_writes ws' (apply_writes ws m)"
  by (simp add: apply_writes_def)

lemma nth_apply_writes:
  "distinct (map fst ws) \<Longrightarrow> \<forall>w \<in> set ws. fst (fst w) < N \<Longrightarrow> square N m \<Longrightarrow>
   i < N \<Longrightarrow> j < N \<Longrightarrow>
   apply_writes ws m ! i ! j = (case map_of ws (i, j) of Some v \<Rightarrow> v | None \<Rightarrow> m ! i ! j)"
proof (induction ws arbitrary: m)
  case Nil
  then show ?case by (simp add: apply_writes_def)
next
  case (Cons w ws)
  obtain a b v where w: "w = ((a, b), v)" by (metis surj_pair)
  have a: "a < N" using Cons.prems(2) w by simp
  have sq: "square N (put2 m a b v)" using Cons.prems(3) a by (rule square_put2)
  have step: "apply_writes (((a, b), v) # ws) m = apply_writes ws (put2 m a b v)"
    by (simp add: apply_writes_def)
  have IH: "apply_writes ws (put2 m a b v) ! i ! j =
        (case map_of ws (i, j) of Some v' \<Rightarrow> v' | None \<Rightarrow> put2 m a b v ! i ! j)"
    using Cons.IH [OF _ _ sq Cons.prems(4,5)] Cons.prems(1,2) by simp
  show ?case
  proof (cases "(a, b) = (i, j)")
    case True
    with Cons.prems(1) w have "(i, j) \<notin> fst ` set ws" by auto
    then have "map_of ws (i, j) = None" by (simp add: map_of_eq_None_iff)
    with True show ?thesis
      using nth_put2 [OF Cons.prems(3) a Cons.prems(4,5), of b v]
      unfolding w step IH by simp
  next
    case False
    then have put: "put2 m a b v ! i ! j = m ! i ! j"
      using nth_put2 [OF Cons.prems(3) a Cons.prems(4,5), of b v] by auto
    from False have "map_of (((a, b), v) # ws) (i, j) = map_of ws (i, j)" by auto
    then show ?thesis unfolding w step IH put by simp
  qed
qed


lemma for_each_append:
  "for_each body (xs @ ys) s =
     (case for_each body xs s of Inl e \<Rightarrow> Inl e | Inr s' \<Rightarrow> for_each body ys s')"
  by (induction xs arbitrary: s) (auto split: sum.splits)

text \<open>The inner loop at a row \<open>y\<close>: every read and write succeeds on square arrays.\<close>

lemma inner_loop_writes:
  assumes M: "square N M" and y: "1 \<le> y" "y \<le> int N"
    and tgt: "\<And>x. 1 \<le> x \<Longrightarrow> x \<le> int N \<Longrightarrow>
               0 \<le> ty y x \<and> ty y x < int N \<and> 0 \<le> tx y x \<and> tx y x < int N"
  shows "set xs \<subseteq> {1..int N} \<Longrightarrow> square N S \<Longrightarrow>
    for_each (\<lambda>x S. case get2 M (y - 1) (x - 1) of
                         Inl e \<Rightarrow> Inl e
                       | Inr v \<Rightarrow> set2 S (ty y x - 1) (tx y x - 1) v) xs S =
    Inr (apply_writes
          (map (\<lambda>x. ((nat ((ty y x - 1) mod int N), nat ((tx y x - 1) mod int N)),
                     M ! nat (y - 1) ! nat (x - 1))) xs) S)"
proof (induction xs arbitrary: S)
  case Nil
  then show ?case by (simp add: apply_writes_def)
next
  case (Cons x xs)
  from Cons.prems(1) have x: "1 \<le> x" "x \<le> int N" by auto
  note t = tgt [OF x]
  have rd: "get2 M (y - 1) (x - 1) = Inr (M ! nat (y - 1) ! nat (x - 1))"
    using M y x by (rule get2_square)
  have wr: "set2 S (ty y x - 1) (tx y x - 1) v =
      Inr (put2 S (nat ((ty y x - 1) mod int N)) (nat ((tx y x - 1) mod int N)) v)" for v
    using Cons.prems(2) t by (intro set2_square) auto
  have "nat ((ty y x - 1) mod int N) < N"
    using x by (simp add: nat_less_iff)
  then have sq: "square N (put2 S (nat ((ty y x - 1) mod int N)) (nat ((tx y x - 1) mod int N)) v)" for v
    using Cons.prems(2) by (intro square_put2)
  show ?case
    using Cons.IH [OF _ sq] Cons.prems(1)
    by (simp add: rd wr apply_writes_def)
qed


definition writes_of ::
  "nat \<Rightarrow> (int \<Rightarrow> int \<Rightarrow> int) \<Rightarrow> (int \<Rightarrow> int \<Rightarrow> int) \<Rightarrow> 'a list list \<Rightarrow> int \<times> int \<Rightarrow> (nat \<times> nat) \<times> 'a" where
  "writes_of N ty tx M = (\<lambda>(y, x).
     ((nat ((ty y x - 1) mod int N), nat ((tx y x - 1) mod int N)),
      M ! nat (y - 1) ! nat (x - 1)))"

lemma writes_of_row_in_range:
  "0 < N \<Longrightarrow> \<forall>w \<in> set (map (writes_of N ty tx M) ps). fst (fst w) < N"
  by (auto simp: writes_of_def nat_less_iff)

lemma outer_loop_writes:
  assumes M: "square N M"
    and tgt: "\<And>y x. 1 \<le> y \<Longrightarrow> y \<le> int N \<Longrightarrow> 1 \<le> x \<Longrightarrow> x \<le> int N \<Longrightarrow>
               0 \<le> ty y x \<and> ty y x < int N \<and> 0 \<le> tx y x \<and> tx y x < int N"
  shows "set ys \<subseteq> {1..int N} \<Longrightarrow> square N S \<Longrightarrow>
    for_each (\<lambda>y. for_each (\<lambda>x S. case get2 M (y - 1) (x - 1) of
                         Inl e \<Rightarrow> Inl e
                       | Inr v \<Rightarrow> set2 S (ty y x - 1) (tx y x - 1) v) [1..int N]) ys S =
    Inr (apply_writes (map (writes_of N ty tx M) (List.product ys [1..int N])) S)"
proof (induction ys arbitrary: S)
  case Nil
  then show ?case by (simp add: apply_writes_def)
next
  case (Cons y ys)
  from Cons.prems(1) have y: "1 \<le> y" "y \<le> int N" by auto
  then have N: "0 < N" by simp
  have row: "for_each (\<lambda>x S. case get2 M (y - 1) (x - 1) of
                         Inl e \<Rightarrow> Inl e
                       | Inr v \<Rightarrow> set2 S (ty y x - 1) (tx y x - 1) v) [1..int N] S =
      Inr (apply_writes (map (writes_of N ty tx M) (map (Pair y) [1..int N])) S)"
    using inner_loop_writes [where ty = ty and tx = tx and xs = "[1..int N]" and S = S, OF M y tgt [OF y]]
      Cons.prems(2)
    by (simp add: writes_of_def comp_def)
  have sq: "square N (apply_writes (map (writes_of N ty tx M) (map (Pair y) [1..int N])) S)"
    using Cons.prems(2) writes_of_row_in_range [OF N] by (rule square_apply_writes)
  show ?case
    using Cons.IH [OF _ sq] Cons.prems(1)
    by (simp add: row apply_writes_append)
qed

lemma square_replicate: "square N (replicate N (replicate N v))"
  by (simp add: square_def)

text \<open>Both passes are the same two loops with their own target coordinates.\<close>

lemma scramble_pass_writes:
  assumes "square N M"
  shows "scramble_pass M =
     Inr (apply_writes
           (map (writes_of N (\<lambda>y x. (x + 2 * y) mod int N) (\<lambda>y x. (x + y) mod int N) M)
                (List.product [1..int N] [1..int N]))
           (replicate N (replicate N False)))"
proof -
  have len: "length M = N" using assms by (simp add: square_def)
  show ?thesis
    unfolding scramble_pass_def Let_def len
    by (rule outer_loop_writes [OF assms _ _ square_replicate]) auto
qed

lemma unscramble_pass_writes:
  assumes "square N M"
  shows "unscramble_pass M =
     Inr (apply_writes
           (map (writes_of N (\<lambda>y x. (- x + y) mod int N) (\<lambda>y x. (2 * x - y) mod int N) M)
                (List.product [1..int N] [1..int N]))
           (replicate N (replicate N False)))"
proof -
  have len: "length M = N" using assms by (simp add: square_def)
  show ?thesis
    unfolding unscramble_pass_def Let_def len
    by (rule outer_loop_writes [OF assms _ _ square_replicate]) auto
qed



subsection \<open>What one pass stores where\<close>

lemma nth_pass:
  assumes sq: "square N (M :: 'a list list)" and N: "0 < N"
    and inj: "inj_on (\<lambda>p. fst (writes_of N ty tx M p)) ({1..int N} \<times> {1..int N})"
    and y: "1 \<le> y" "y \<le> int N" and x: "1 \<le> x" "x \<le> int N"
    and A: "square N A"
  shows "apply_writes (map (writes_of N ty tx M) (List.product [1..int N] [1..int N])) A
           ! nat ((ty y x - 1) mod int N) ! nat ((tx y x - 1) mod int N)
         = M ! nat (y - 1) ! nat (x - 1)"
proof -
  let ?ps = "List.product [1..int N] [1..int N]"
  let ?ws = "map (writes_of N ty tx M) ?ps"
  have dps: "distinct ?ps" by (simp add: distinct_product)
  have "distinct (map (\<lambda>p. fst (writes_of N ty tx M p)) ?ps)"
    using dps inj by (simp add: distinct_map)
  then have d: "distinct (map fst ?ws)" by (simp add: comp_def)
  have r: "\<forall>w \<in> set ?ws. fst (fst w) < N"
    using N by (rule writes_of_row_in_range)
  have i: "nat ((ty y x - 1) mod int N) < N" and j: "nat ((tx y x - 1) mod int N) < N"
    using N by (simp_all add: nat_less_iff)
  have "writes_of N ty tx M (y, x) \<in> set ?ws"
    using y x by auto
  then have "((nat ((ty y x - 1) mod int N), nat ((tx y x - 1) mod int N)),
              M ! nat (y - 1) ! nat (x - 1)) \<in> set ?ws"
    by (simp add: writes_of_def)
  then have "map_of ?ws (nat ((ty y x - 1) mod int N), nat ((tx y x - 1) mod int N))
             = Some (M ! nat (y - 1) ! nat (x - 1))"
    using d by (intro map_of_is_SomeI)
  then show ?thesis
    using nth_apply_writes [OF d r A i j] by simp
qed


lemma small_multiple_zero:
  fixes d :: int
  assumes "int N dvd d" "\<bar>d\<bar> < int N"
  shows "d = 0"
  using assms dvd_imp_le_int [of d "int N"] by auto

lemma scramble_targets_inj:
  assumes N: "0 < N"
  shows "inj_on (\<lambda>p. fst (writes_of N (\<lambda>y x. (x + 2 * y) mod int N) (\<lambda>y x. (x + y) mod int N) M p))
           ({1..int N} \<times> {1..int N})"
proof (rule inj_onI)
  fix p q :: "int \<times> int"
  assume p: "p \<in> {1..int N} \<times> {1..int N}" and q: "q \<in> {1..int N} \<times> {1..int N}"
    and pq: "fst (writes_of N (\<lambda>y x. (x + 2 * y) mod int N) (\<lambda>y x. (x + y) mod int N) M p) =
             fst (writes_of N (\<lambda>y x. (x + 2 * y) mod int N) (\<lambda>y x. (x + y) mod int N) M q)"
  obtain y x where p_def: "p = (y, x)" by (cases p)
  obtain y' x' where q_def: "q = (y', x')" by (cases q)
  from p q have y: "y \<in> {1..int N}" and x: "x \<in> {1..int N}"
    and y': "y' \<in> {1..int N}" and x': "x' \<in> {1..int N}"
    by (simp_all add: p_def q_def)
  from pq have eq: "fst (writes_of N (\<lambda>y x. (x + 2 * y) mod int N) (\<lambda>y x. (x + y) mod int N) M (y, x)) =
             fst (writes_of N (\<lambda>y x. (x + 2 * y) mod int N) (\<lambda>y x. (x + y) mod int N) M (y', x'))"
    by (simp add: p_def q_def)
  have pos: "0 < int N" using N by simp
  from eq have "nat (((x + 2 * y) mod int N - 1) mod int N) = nat (((x' + 2 * y') mod int N - 1) mod int N)"
    and "nat (((x + y) mod int N - 1) mod int N) = nat (((x' + y') mod int N - 1) mod int N)"
    by (simp_all add: writes_of_def)
  then have e1: "(x + 2 * y - 1) mod int N = (x' + 2 * y' - 1) mod int N"
    and e2: "(x + y - 1) mod int N = (x' + y' - 1) mod int N"
    using pos by (simp_all add: mod_diff_left_eq nat_eq_iff)
  from e1 have d1: "int N dvd (x + 2 * y - 1) - (x' + 2 * y' - 1)"
    by (simp add: mod_eq_dvd_iff)
  from e2 have d2: "int N dvd (x + y - 1) - (x' + y' - 1)"
    by (simp add: mod_eq_dvd_iff)
  from d1 d2 have "int N dvd ((x + 2 * y - 1) - (x' + 2 * y' - 1)) - ((x + y - 1) - (x' + y' - 1))"
    by (rule dvd_diff)
  then have "int N dvd y - y'" by (simp add: algebra_simps)
  moreover have "\<bar>y - y'\<bar> < int N" using y y' by auto
  ultimately have yy: "y = y'" using small_multiple_zero [of N "y - y'"] by simp
  from d2 yy have "int N dvd x - x'" by (simp add: algebra_simps)
  moreover have "\<bar>x - x'\<bar> < int N" using x x' by auto
  ultimately have "x = x'" using small_multiple_zero [of N "x - x'"] by simp
  with yy show "p = q" by (simp add: p_def q_def)
qed



lemma unscramble_targets_inj:
  assumes N: "0 < N"
  shows "inj_on (\<lambda>p. fst (writes_of N (\<lambda>y x. (- x + y) mod int N) (\<lambda>y x. (2 * x - y) mod int N) M p))
           ({1..int N} \<times> {1..int N})"
proof (rule inj_onI)
  fix p q :: "int \<times> int"
  assume p: "p \<in> {1..int N} \<times> {1..int N}" and q: "q \<in> {1..int N} \<times> {1..int N}"
    and pq: "fst (writes_of N (\<lambda>y x. (- x + y) mod int N) (\<lambda>y x. (2 * x - y) mod int N) M p) =
             fst (writes_of N (\<lambda>y x. (- x + y) mod int N) (\<lambda>y x. (2 * x - y) mod int N) M q)"
  obtain y x where p_def: "p = (y, x)" by (cases p)
  obtain y' x' where q_def: "q = (y', x')" by (cases q)
  from p q have y: "y \<in> {1..int N}" and x: "x \<in> {1..int N}"
    and y': "y' \<in> {1..int N}" and x': "x' \<in> {1..int N}"
    by (simp_all add: p_def q_def)
  from pq have eq: "fst (writes_of N (\<lambda>y x. (- x + y) mod int N) (\<lambda>y x. (2 * x - y) mod int N) M (y, x)) =
             fst (writes_of N (\<lambda>y x. (- x + y) mod int N) (\<lambda>y x. (2 * x - y) mod int N) M (y', x'))"
    by (simp add: p_def q_def)
  have pos: "0 < int N" using N by simp
  from eq have "nat (((- x + y) mod int N - 1) mod int N) = nat (((- x' + y') mod int N - 1) mod int N)"
    and "nat (((2 * x - y) mod int N - 1) mod int N) = nat (((2 * x' - y') mod int N - 1) mod int N)"
    by (simp_all add: writes_of_def)
  then have e1: "(- x + y - 1) mod int N = (- x' + y' - 1) mod int N"
    and e2: "(2 * x - y - 1) mod int N = (2 * x' - y' - 1) mod int N"
    using pos by (simp_all add: mod_diff_left_eq nat_eq_iff)
  from e1 have d1: "int N dvd (- x + y - 1) - (- x' + y' - 1)"
    by (simp add: mod_eq_dvd_iff)
  from e2 have d2: "int N dvd (2 * x - y - 1) - (2 * x' - y' - 1)"
    by (simp add: mod_eq_dvd_iff)
  from d1 d2 have "int N dvd ((- x + y - 1) - (- x' + y' - 1)) + ((2 * x - y - 1) - (2 * x' - y' - 1))"
    by (rule dvd_add)
  then have "int N dvd x - x'" by (simp add: algebra_simps)
  moreover have "\<bar>x - x'\<bar> < int N" using x x' by auto
  ultimately have xx: "x = x'" using small_multiple_zero [of N "x - x'"] by simp
  from d1 xx have "int N dvd y - y'" by (simp add: algebra_simps)
  moreover have "\<bar>y - y'\<bar> < int N" using y y' by auto
  ultimately have "y = y'" using small_multiple_zero [of N "y - y'"] by simp
  with xx show "p = q" by (simp add: p_def q_def)
qed


subsection \<open>One pass of unscramble undoes one pass of scramble\<close>

lemma mod_diff_diff:
  fixes a b c n :: int
  shows "(a mod n - b mod n - c) mod n = (a - b - c) mod n"
  by (intro mod_diff_cong) simp_all

lemma mod_twice_diff:
  fixes a b n :: int
  shows "(2 * (a mod n) - b mod n) mod n = (2 * a - b) mod n"
  by (intro mod_diff_cong mod_mult_cong) simp_all

lemma pass_round_trip:
  assumes sq: "square N M"
  shows "\<exists>S. scramble_pass M = Inr S \<and> square N S \<and> unscramble_pass S = Inr M"
proof (cases "N = 0")
  case True
  with sq have "M = []" by (simp add: square_def)
  with True show ?thesis
    by (simp add: scramble_pass_def unscramble_pass_def square_def)
next
  case False
  then have N: "0 < N" by simp
  let ?blank = "replicate N (replicate N False)"
  let ?sy = "\<lambda>(y::int) (x::int). (x + 2 * y) mod int N"
  let ?sx = "\<lambda>(y::int) (x::int). (x + y) mod int N"
  let ?uy = "\<lambda>(y::int) (x::int). (- x + y) mod int N"
  let ?ux = "\<lambda>(y::int) (x::int). (2 * x - y) mod int N"
  let ?S = "apply_writes (map (writes_of N ?sy ?sx M) (List.product [1..int N] [1..int N])) ?blank"
  let ?U = "apply_writes (map (writes_of N ?uy ?ux ?S) (List.product [1..int N] [1..int N])) ?blank"
  have S: "scramble_pass M = Inr ?S" by (rule scramble_pass_writes [OF sq])
  have sqS: "square N ?S"
    by (rule square_apply_writes [OF square_replicate writes_of_row_in_range [OF N]])
  have U: "unscramble_pass ?S = Inr ?U" by (rule unscramble_pass_writes [OF sqS])
  have sqU: "square N ?U"
    by (rule square_apply_writes [OF square_replicate writes_of_row_in_range [OF N]])
  have cell: "?U ! i ! j = M ! i ! j" if i: "i < N" and j: "j < N" for i j
  proof -
    define y x where "y = int i + 1" and "x = int j + 1"
    define y' x' where "y' = (x + 2 * y - 1) mod int N + 1" and "x' = (x + y - 1) mod int N + 1"
    have yx: "1 \<le> y" "y \<le> int N" "1 \<le> x" "x \<le> int N"
      using i j by (simp_all add: y_def x_def)
    have yx': "1 \<le> y'" "y' \<le> int N" "1 \<le> x'" "x' \<le> int N"
      using N by (simp_all add: y'_def x'_def add1_zle_eq)
    have s: "?S ! nat ((?sy y x - 1) mod int N) ! nat ((?sx y x - 1) mod int N)
             = M ! nat (y - 1) ! nat (x - 1)"
      by (rule nth_pass [OF sq N scramble_targets_inj [OF N] yx square_replicate])
    have u: "?U ! nat ((?uy y' x' - 1) mod int N) ! nat ((?ux y' x' - 1) mod int N)
             = ?S ! nat (y' - 1) ! nat (x' - 1)"
      by (rule nth_pass [OF sqS N unscramble_targets_inj [OF N] yx' square_replicate])
    have "- x' + y' - 1 = (x + 2 * y - 1) mod int N - (x + y - 1) mod int N - 1"
      by (simp add: y'_def x'_def)
    then have "(- x' + y' - 1) mod int N = ((x + 2 * y - 1) - (x + y - 1) - 1) mod int N"
      by (simp only: mod_diff_diff)
    also have "\<dots> = int i mod int N" by (simp add: y_def x_def)
    finally have "((- x' + y') mod int N - 1) mod int N = int i"
      using i by (simp add: mod_diff_left_eq)
    then have ti: "nat ((?uy y' x' - 1) mod int N) = i" by simp
    have "2 * x' - y' - 1 = 2 * ((x + y - 1) mod int N) - (x + 2 * y - 1) mod int N"
      by (simp add: y'_def x'_def)
    then have "(2 * x' - y' - 1) mod int N = (2 * (x + y - 1) - (x + 2 * y - 1)) mod int N"
      by (simp only: mod_twice_diff)
    also have "\<dots> = int j mod int N" by (simp add: y_def x_def)
    finally have "((2 * x' - y') mod int N - 1) mod int N = int j"
      using j by (simp add: mod_diff_left_eq)
    then have tj: "nat ((?ux y' x' - 1) mod int N) = j" by simp
    have si: "nat ((?sy y x - 1) mod int N) = nat (y' - 1)"
      by (simp add: y'_def mod_diff_left_eq)
    have sj: "nat ((?sx y x - 1) mod int N) = nat (x' - 1)"
      by (simp add: x'_def mod_diff_left_eq)
    have "?U ! i ! j = ?S ! nat (y' - 1) ! nat (x' - 1)"
      using u unfolding ti tj .
    also have "\<dots> = M ! nat (y - 1) ! nat (x - 1)"
      using s unfolding si sj .
    also have "\<dots> = M ! i ! j" by (simp add: y_def x_def)
    finally show ?thesis .
  qed
  have "?U = M"
  proof (rule nth_equalityI)
    show "length ?U = length M" using sqU sq by (simp add: square_def)
  next
    fix i assume "i < length ?U"
    then have i: "i < N" using sqU by (simp add: square_def)
    show "?U ! i = M ! i"
    proof (rule nth_equalityI)
      show "length (?U ! i) = length (M ! i)"
        using sqU sq i by (simp add: square_def)
    next
      fix j assume "j < length (?U ! i)"
      then have "j < N" using sqU i by (simp add: square_def)
      with i show "?U ! i ! j = M ! i ! j" by (rule cell)
    qed
  qed
  with S sqS U show ?thesis by simp
qed


subsection \<open>Iterated passes\<close>

fun repeat_pass :: "('a \<Rightarrow> py_error + 'a) \<Rightarrow> nat \<Rightarrow> 'a \<Rightarrow> py_error + 'a" where
  "repeat_pass f 0 a = Inr a"
| "repeat_pass f (Suc n) a = (case f a of Inl e \<Rightarrow> Inl e | Inr b \<Rightarrow> repeat_pass f n b)"

lemma repeat_pass_snoc:
  "repeat_pass f (Suc n) a = (case repeat_pass f n a of Inl e \<Rightarrow> Inl e | Inr b \<Rightarrow> f b)"
proof (induction n arbitrary: a)
  case 0
  show ?case by (simp split: sum.splits)
next
  case (Suc n)
  show ?case
  proof (cases "f a")
    case (Inl e)
    then show ?thesis by simp
  next
    case (Inr b)
    have "repeat_pass f (Suc (Suc n)) a = repeat_pass f (Suc n) b"
      using Inr by simp
    also have "\<dots> = (case repeat_pass f n b of Inl e \<Rightarrow> Inl e | Inr c \<Rightarrow> f c)"
      by (rule Suc.IH)
    also have "\<dots> = (case repeat_pass f (Suc n) a of Inl e \<Rightarrow> Inl e | Inr c \<Rightarrow> f c)"
      using Inr by simp
    finally show ?thesis .
  qed
qed

lemma scramble_repeat: "scramble M k = repeat_pass scramble_pass (nat (max 1 k)) M"
proof (induction M k rule: scramble.induct)
  case (1 M k)
  show ?case
  proof (cases "k - 1 > 0")
    case True
    then have n: "nat (max 1 k) = Suc (nat (max 1 (k - 1)))" by simp
    show ?thesis
      using 1 True
      by (subst scramble.simps, subst n) (simp split: sum.splits)
  next
    case False
    then have n: "nat (max 1 k) = Suc 0" by simp
    show ?thesis
      using False
      by (subst scramble.simps, subst n) (simp split: sum.splits)
  qed
qed

lemma unscramble_repeat: "unscramble M k = repeat_pass unscramble_pass (nat (max 1 k)) M"
proof (induction M k rule: unscramble.induct)
  case (1 M k)
  show ?case
  proof (cases "k - 1 > 0")
    case True
    then have n: "nat (max 1 k) = Suc (nat (max 1 (k - 1)))" by simp
    show ?thesis
      using 1 True
      by (subst unscramble.simps, subst n) (simp split: sum.splits)
  next
    case False
    then have n: "nat (max 1 k) = Suc 0" by simp
    show ?thesis
      using False
      by (subst unscramble.simps, subst n) (simp split: sum.splits)
  qed
qed

lemma repeat_round_trip:
  assumes step: "\<And>M. P M \<Longrightarrow> \<exists>S. f M = Inr S \<and> P S \<and> g S = Inr M"
  shows "P M \<Longrightarrow> \<exists>S. repeat_pass f n M = Inr S \<and> P S \<and> repeat_pass g n S = Inr M"
proof (induction n arbitrary: M)
  case 0
  then show ?case by simp
next
  case (Suc n)
  from step [OF Suc.prems] obtain M1 where M1: "f M = Inr M1" "P M1" "g M1 = Inr M"
    by blast
  from Suc.IH [OF M1(2)] obtain S where S: "repeat_pass f n M1 = Inr S" "P S"
    "repeat_pass g n S = Inr M1" by blast
  have "repeat_pass f (Suc n) M = Inr S" using M1(1) S(1) by simp
  moreover have "repeat_pass g (Suc n) S = Inr M"
    using S(3) M1(3) by (simp only: repeat_pass_snoc sum.case)
  ultimately show ?case using S(2) by blast
qed

lemma scramble_round_trip:
  assumes "square N M"
  shows "\<exists>S. scramble M k = Inr S \<and> square N S \<and> unscramble S k = Inr M"
  unfolding scramble_repeat unscramble_repeat
  using pass_round_trip assms by (rule repeat_round_trip)

text \<open>
  Claim C2. For every square binary matrix \<open>M\<close> of side \<open>N\<close> in \<open>2..32\<close> and every
  iteration count \<open>k\<close> in \<open>1..32\<close>, \<^verbatim>\<open>scramble(M, k)\<close> returns a matrix \<open>S\<close>, and
  \<^verbatim>\<open>unscramble(S, k)\<close> returns \<open>M\<close>.
\<close>

theorem unscramble_scramble:
  assumes "square N M" and "2 \<le> N" and "N \<le> 32" and "1 \<le> k" and "k \<le> 32"
  shows "\<exists>S. scramble M k = Inr S \<and> unscramble S k = Inr M"
  using scramble_round_trip [OF assms(1), of k] by blast

theorem unscramble_scramble_witness:
  "square 3 [[True, False, False], [False, False, True], [True, True, False]] \<and>
   (\<exists>S. scramble [[True, False, False], [False, False, True], [True, True, False]] 5 = Inr S \<and>
        unscramble S 5 = Inr [[True, False, False], [False, False, True], [True, True, False]])"
  using unscramble_scramble [of 3 "[[True, False, False], [False, False, True], [True, True, False]]" 5]
  by (simp add: square_def)

text \<open>
  Claim C3, as the code computes it. One pass over \<open>[[T,F],[F,T]]\<close> gives \<open>[[F,T],[F,T]]\<close>
  (the claim's \<open>[[F,T],[T,F]]\<close> is not what the loops store), and \<^verbatim>\<open>unscramble\<close> with
  \<open>k = 1\<close> restores the input.
\<close>

theorem scramble_2x2:
  "scramble [[True, False], [False, True]] 1 = Inr [[False, True], [False, True]] \<and>
   unscramble [[False, True], [False, True]] 1 = Inr [[True, False], [False, True]]"
  by code_simp

theorem scramble_2x2_counterexample:
  "scramble [[True, False], [False, True]] 1 \<noteq> Inr [[False, True], [True, False]]"
  by code_simp



section \<open>Visible watermark (raster\_ipr.Watermark.embed\_image)\<close>

subsection \<open>Datasets, bands and band interpretation\<close>

text \<open>
  A GDAL dataset is the list of its bands; band number \<open>n\<close> (counted from 1) is the
  element \<open>n - 1\<close>. Of a band the code reads its colour interpretation, its pixel array
  (\<^verbatim>\<open>ReadAsArray\<close>, one list per row), its nodata value (\<^verbatim>\<open>None\<close> when unset) and the
  statistics \<^verbatim>\<open>GetStatistics(False, True)\<close> reports, \<open>[min, max, mean, stddev]\<close>. GDAL
  computes the statistics; here they are the field \<open>band_statistics\<close> of the band as read.
  Pixel values and the float arithmetic on them are real numbers.
\<close>

datatype color_interp = Red | Green | Blue | Gray | Alpha | Palette | Undefined | OtherColor

record band =
  color_interpretation :: color_interp
  band_array :: "real list list"
  no_data_value :: "real option"
  band_statistics :: "real \<times> real \<times> real \<times> real"

type_synonym dataset = "band list"

datatype raster_mode = Grayscale | RGB | RGBA | PaletteMode

definition GetRasterBand :: "dataset \<Rightarrow> nat \<Rightarrow> band option" where
  "GetRasterBand ds n = (if 1 \<le> n \<and> n \<le> length ds then Some (ds ! (n - 1)) else None)"

text \<open>A Python dict, in insertion order: \<^verbatim>\<open>d[k] = v\<close> and \<^verbatim>\<open>d[k]\<close>.\<close>

fun dict_set :: "('k \<times> 'v) list \<Rightarrow> 'k \<Rightarrow> 'v \<Rightarrow> ('k \<times> 'v) list" where
  "dict_set [] k v = [(k, v)]"
| "dict_set ((k', v') # d) k v = (if k' = k then (k, v) # d else (k', v') # dict_set d k v)"

definition dict_get :: "('k \<times> 'v) list \<Rightarrow> 'k \<Rightarrow> py_error + 'v" where
  "dict_get d k = (case map_of d k of None \<Rightarrow> Inl KeyError | Some v \<Rightarrow> Inr v)"

text \<open>
  \<^verbatim>\<open>getBandInterpretation\<close>: the loop over the band numbers \<open>1..count\<close> that fills the
  dict, then the classification of the mode.
\<close>

definition band_roles :: "dataset \<Rightarrow> nat \<Rightarrow> (color_interp \<times> nat) list" where
  "band_roles ds count =
     fold (\<lambda>i bandInterp.
        case GetRasterBand ds i of
          None \<Rightarrow> bandInterp
        | Some band \<Rightarrow>
            let color = color_interpretation band
            in if color \<in> set [Red, Green, Blue, Gray, Alpha, Palette]
               then dict_set bandInterp color i else bandInterp)
      [1..<count + 1] []"

definition getBandInterpretation ::
  "dataset \<Rightarrow> py_error + raster_mode \<times> (color_interp \<times> nat) list" where
  "getBandInterpretation ds =
     (let count = length ds;
          bandInterp = band_roles ds count;
          colors = map fst bandInterp
      in if Gray \<in> set colors then Inr (Grayscale, bandInterp)
         else if Red \<in> set colors \<and> Green \<in> set colors \<and> Blue \<in> set colors
                 \<and> length colors = 3 then
           (if count = 4 \<and> 4 \<notin> set (map snd bandInterp) then
              (case GetRasterBand ds 4 of
                 None \<Rightarrow> Inl AttributeError
               | Some band \<Rightarrow>
                   let color = color_interpretation band;
                       max_value = fst (snd (band_statistics band))
                   in if color = Undefined \<and> max_value < 256
                      then Inr (RGBA, dict_set bandInterp Alpha 4)
                      else Inr (RGB, bandInterp))
            else Inr (RGB, bandInterp))
         else if Red \<in> set colors \<and> Green \<in> set colors \<and> Blue \<in> set colors
                 \<and> Alpha \<in> set colors \<and> length colors = 4 then Inr (RGBA, bandInterp)
         else if Palette \<in> set colors then Inr (PaletteMode, bandInterp)
         else Inl NotImplementedError)"

text \<open>
  The state of a \<^verbatim>\<open>Watermark\<close> object that \<^verbatim>\<open>embed_image\<close> reads: the opened raster
  (for a paletted file, its RGBA expansion), the mode and band interpretation
  \<^verbatim>\<open>__init__\<close> stored, and the palette's colour count.
\<close>

record watermark =
  raster :: dataset
  mode :: raster_mode
  band_interpretation :: "(color_interp \<times> nat) list"
  paletteCount :: "nat option"

subsection \<open>Compositing\<close>

text \<open>Python's \<^verbatim>\<open>round\<close> to an integer: halves go to the even neighbour.\<close>

definition py_round :: "real \<Rightarrow> int" where
  "py_round x =
     (let f = \<lfloor>x\<rfloor>; d = x - of_int f
      in if d < 1 / 2 then f else if 1 / 2 < d then f + 1 else if even f then f else f + 1)"

text \<open>
  The body of the two pixel loops for one pixel: \<open>None\<close> when the pixel is left as it is,
  \<open>Some v\<close> when \<open>v\<close> is stored. Where \<^verbatim>\<open>max_value\<close> is 0 the source's float division gives
  nan or inf, the product with \<^verbatim>\<open>max_value\<close> is nan, and \<^verbatim>\<open>round\<close> raises ValueError.
\<close>

definition embed_pixel ::
  "color_interp \<Rightarrow> real option \<Rightarrow> real \<times> real \<times> real \<times> real \<Rightarrow> real \<Rightarrow>
   real \<Rightarrow> real \<Rightarrow> real \<Rightarrow> py_error + real option" where
  "embed_pixel color noDataValue stats transparency wm_px wm_alpha_px px =
     (let max_value = fst (snd stats);
          threshold = 1 / 10;
          wm_value = wm_px / 255;
          alpha = wm_alpha_px / 255
      in if wm_value * alpha > threshold then
           if color = Alpha then
             (let max_alpha = py_round (fst (snd (snd stats)) + snd (snd (snd stats)))
              in if Some px = noDataValue \<or> px = 0 then Inr (Some (of_int max_alpha))
                 else Inr None)
           else
             (let alpha = alpha * transparency;
                  norm_value = (1 - wm_value) * alpha
              in if Some px \<noteq> noDataValue then
                   (if max_value = 0 then Inl ValueError
                    else let true_value = px / max_value
                         in Inr (Some (of_int (py_round
                              ((1 - (1 - true_value) * (1 - alpha) - norm_value) * max_value)))))
                 else Inr (Some (of_int (py_round ((1 - norm_value) * max_value)))))
         else Inr None)"

text \<open>The loops over \<^verbatim>\<open>range(len(raster_arr))\<close> and \<^verbatim>\<open>range(len(raster_arr[i]))\<close>.\<close>

definition embed_band ::
  "color_interp \<Rightarrow> band \<Rightarrow> real list list \<Rightarrow> real list list \<Rightarrow> real \<Rightarrow>
   py_error + real list list" where
  "embed_band color band wm_arr wm_alpha_arr transparency =
     (let stats = band_statistics band;
          raster_arr = band_array band;
          noDataValue = no_data_value band
      in for_each (\<lambda>i raster_arr.
           for_each (\<lambda>j raster_arr.
             case get2 wm_arr (int i) (int j) of
               Inl e \<Rightarrow> Inl e
             | Inr wm_px \<Rightarrow>
             (case get2 wm_alpha_arr (int i) (int j) of
               Inl e \<Rightarrow> Inl e
             | Inr wm_alpha_px \<Rightarrow>
             (case get2 raster_arr (int i) (int j) of
               Inl e \<Rightarrow> Inl e
             | Inr px \<Rightarrow>
             (case embed_pixel color noDataValue stats transparency wm_px wm_alpha_px px of
               Inl e \<Rightarrow> Inl e
             | Inr None \<Rightarrow> Inr raster_arr
             | Inr (Some v) \<Rightarrow> set2 raster_arr (int i) (int j) v))))
           [0..<length (raster_arr ! i)] raster_arr)
         [0..<length raster_arr] raster_arr)"

text \<open>
  One turn of the loop over the colours: the raster's band and the watermark's bands for
  the colour and for \<^verbatim>\<open>'Alpha'\<close> (a missing key raises KeyError), the pixel loops, and
  \<^verbatim>\<open>WriteArray\<close> on the band of the copy. \<^verbatim>\<open>GetRasterBand\<close> gives \<^verbatim>\<open>None\<close> for a band
  number the dataset does not have, and the method call on it raises AttributeError.
\<close>

definition WriteArray :: "dataset \<Rightarrow> nat \<Rightarrow> real list list \<Rightarrow> py_error + dataset" where
  "WriteArray merged n arr =
     (case GetRasterBand merged n of
        None \<Rightarrow> Inl AttributeError
      | Some b \<Rightarrow> Inr (merged[n - 1 := b\<lparr>band_array := arr\<rparr>]))"

definition embed_color ::
  "watermark \<Rightarrow> dataset \<Rightarrow> (color_interp \<times> nat) list \<Rightarrow> real \<Rightarrow> color_interp \<Rightarrow>
   py_error + nat \<times> real list list" where
  "embed_color self wm wm_bandInterp transparency color =
     (case dict_get (band_interpretation self) color of
        Inl e \<Rightarrow> Inl e
      | Inr n \<Rightarrow>
     (case GetRasterBand (raster self) n of
        None \<Rightarrow> Inl AttributeError
      | Some band \<Rightarrow>
     (case dict_get wm_bandInterp color of
        Inl e \<Rightarrow> Inl e
      | Inr wn \<Rightarrow>
     (case GetRasterBand wm wn of
        None \<Rightarrow> Inl AttributeError
      | Some wm_band \<Rightarrow>
     (case dict_get wm_bandInterp Alpha of
        Inl e \<Rightarrow> Inl e
      | Inr an \<Rightarrow>
     (case GetRasterBand wm an of
        None \<Rightarrow> Inl AttributeError
      | Some wm_alpha_band \<Rightarrow>
     (case embed_band color band (band_array wm_band) (band_array wm_alpha_band) transparency of
        Inl e \<Rightarrow> Inl e
      | Inr raster_arr \<Rightarrow> Inr (n, raster_arr))))))))"

text \<open>
  \<^verbatim>\<open>embed_image\<close> from the prepared watermark on: \<open>wm\<close> is the dataset that
  \<^verbatim>\<open>gdal.Open(translated_file)\<close> returns (the resizing and padding of the watermark file
  are PIL's and GDAL's). The output starts as a copy of the raster. With a palette count
  set, the last step calls \<^verbatim>\<open>rgb2pct\<close>, which is a method of the class and no name of the
  module: NameError.
\<close>

definition embed_image :: "watermark \<Rightarrow> dataset \<Rightarrow> real \<Rightarrow> py_error + dataset" where
  "embed_image self wm transparency =
     (case getBandInterpretation wm of
        Inl e \<Rightarrow> Inl e
      | Inr (wm_mode, wm_bandInterp) \<Rightarrow>
     (case for_each (\<lambda>color merged.
              case embed_color self wm wm_bandInterp transparency color of
                Inl e \<Rightarrow> Inl e
              | Inr (n, raster_arr) \<Rightarrow> WriteArray merged n raster_arr)
            (map fst (band_interpretation self)) (raster self) of
        Inl e \<Rightarrow> Inl e
      | Inr merged \<Rightarrow> if paletteCount self \<noteq> None then Inl NameError else Inr merged))"



subsection \<open>Loops that keep a relation\<close>

lemma for_each_preserves:
  assumes step: "\<And>x s s'. x \<in> set xs \<Longrightarrow> body x s = Inr s' \<Longrightarrow> R s s'"
    and refl: "\<And>s. R s s"
    and trans: "\<And>s t u. R s t \<Longrightarrow> R t u \<Longrightarrow> R s u"
  shows "for_each body xs s = Inr s' \<Longrightarrow> R s s'"
  using step
proof (induction xs arbitrary: s)
  case Nil
  then show ?case by (simp add: refl)
next
  case (Cons x xs)
  from Cons.prems(1) obtain t where t: "body x s = Inr t" "for_each body xs t = Inr s'"
    by (auto split: sum.splits)
  have "R s t" using Cons.prems(2) [of x s t] t(1) by simp
  moreover have "R t s'" by (rule Cons.IH [OF t(2)]) (rule Cons.prems(2), simp_all)
  ultimately show ?case by (rule trans)
qed

lemma get2_int:
  assumes "get2 m (int i) (int j) = Inr w"
  shows "w = m ! i ! j"
  using assms
  by (auto simp: get2_def py_get_def py_index_def Let_def split: sum.splits if_splits)

lemma set2_int:
  assumes "set2 m (int i) (int j) v = Inr m'"
  shows "m' = put2 m i j v"
  using assms
  by (auto simp: set2_def py_get_def py_set_def py_index_def put2_def Let_def
           split: sum.splits if_splits)

lemma map_length_put2: "map length (put2 s i j v) = map length s"
proof (cases "i < length s")
  case True
  then show ?thesis
    by (simp add: put2_def map_update list_update_same_conv)
next
  case False
  then show ?thesis by (simp add: put2_def list_update_beyond not_less)
qed

lemma nth_put2_other: "\<not> (a = i \<and> b = j) \<Longrightarrow> put2 s i j v ! a ! b = s ! a ! b"
proof (cases "i < length s")
  case True
  assume "\<not> (a = i \<and> b = j)"
  with True show ?thesis by (cases "a = i") (auto simp: put2_def)
next
  case False
  then show ?thesis by (simp add: put2_def list_update_beyond not_less)
qed

text \<open>The pixel test of the loops: a pixel is written only where it holds.\<close>

definition over_threshold :: "real \<Rightarrow> real \<Rightarrow> bool" where
  "over_threshold wm_px wm_alpha_px \<longleftrightarrow> wm_px / 255 * (wm_alpha_px / 255) > 1 / 10"

lemma embed_pixel_Some:
  "embed_pixel color nd stats t w a px = Inr (Some v) \<Longrightarrow> over_threshold w a"
  by (auto simp: embed_pixel_def over_threshold_def Let_def split: if_splits)

definition frame :: "real list list \<Rightarrow> real list list \<Rightarrow> real list list \<Rightarrow> real list list \<Rightarrow> bool" where
  "frame wm_arr wm_alpha_arr s s' \<longleftrightarrow>
     map length s' = map length s \<and>
     (\<forall>a b. \<not> over_threshold (wm_arr ! a ! b) (wm_alpha_arr ! a ! b) \<longrightarrow> s' ! a ! b = s ! a ! b)"

lemma frame_refl: "frame w wa s s"
  by (simp add: frame_def)

lemma frame_trans: "frame w wa s t \<Longrightarrow> frame w wa t u \<Longrightarrow> frame w wa s u"
  by (simp add: frame_def)

lemma embed_band_frame:
  assumes "embed_band color band wm_arr wm_alpha_arr transparency = Inr arr"
  shows "frame wm_arr wm_alpha_arr (band_array band) arr"
proof -
  have cell: "frame wm_arr wm_alpha_arr s s'"
    if "(case get2 wm_arr (int i) (int j) of
               Inl e \<Rightarrow> Inl e
             | Inr wm_px \<Rightarrow>
             (case get2 wm_alpha_arr (int i) (int j) of
               Inl e \<Rightarrow> Inl e
             | Inr wm_alpha_px \<Rightarrow>
             (case get2 s (int i) (int j) of
               Inl e \<Rightarrow> Inl e
             | Inr px \<Rightarrow>
             (case embed_pixel color (no_data_value band) (band_statistics band) transparency wm_px wm_alpha_px px of
               Inl e \<Rightarrow> Inl e
             | Inr None \<Rightarrow> Inr s
             | Inr (Some v) \<Rightarrow> set2 s (int i) (int j) v)))) = Inr s'"
    for i j s s'
  proof -
    from that obtain w a px r where w: "get2 wm_arr (int i) (int j) = Inr w"
      and a: "get2 wm_alpha_arr (int i) (int j) = Inr a"
      and px: "get2 s (int i) (int j) = Inr px"
      and r: "embed_pixel color (no_data_value band) (band_statistics band) transparency w a px = Inr r"
      and s': "(case r of None \<Rightarrow> Inr s | Some v \<Rightarrow> set2 s (int i) (int j) v) = Inr s'"
      by (auto split: sum.splits)
    show ?thesis
    proof (cases r)
      case None
      with s' show ?thesis by (simp add: frame_refl)
    next
      case (Some v)
      with s' have "s' = put2 s i j v" by (simp add: set2_int)
      moreover have over: "over_threshold (wm_arr ! i ! j) (wm_alpha_arr ! i ! j)"
        using embed_pixel_Some r Some get2_int [OF w] get2_int [OF a] by blast
      moreover have "put2 s i j v ! a ! b = s ! a ! b"
        if "\<not> over_threshold (wm_arr ! a ! b) (wm_alpha_arr ! a ! b)" for a b
        using that over by (intro nth_put2_other) auto
      ultimately show ?thesis
        unfolding frame_def by (simp add: map_length_put2)
    qed
  qed
  have row: "frame wm_arr wm_alpha_arr s s'"
    if "for_each (\<lambda>j raster_arr.
             case get2 wm_arr (int i) (int j) of
               Inl e \<Rightarrow> Inl e
             | Inr wm_px \<Rightarrow>
             (case get2 wm_alpha_arr (int i) (int j) of
               Inl e \<Rightarrow> Inl e
             | Inr wm_alpha_px \<Rightarrow>
             (case get2 raster_arr (int i) (int j) of
               Inl e \<Rightarrow> Inl e
             | Inr px \<Rightarrow>
             (case embed_pixel color (no_data_value band) (band_statistics band) transparency wm_px wm_alpha_px px of
               Inl e \<Rightarrow> Inl e
             | Inr None \<Rightarrow> Inr raster_arr
             | Inr (Some v) \<Rightarrow> set2 raster_arr (int i) (int j) v))))
           js s = Inr s'"
    for i js s s'
    using _ frame_refl frame_trans that
    by (rule for_each_preserves) (rule cell)
  show ?thesis
    using _ frame_refl frame_trans assms [unfolded embed_band_def Let_def]
    by (rule for_each_preserves) (rule row)
qed


subsection \<open>The band interpretation names each band once\<close>

lemma dict_set_Cons:
  "dict_set (p # d) k v = (if fst p = k then (k, v) # d else p # dict_set d k v)"
  by (cases p) simp

lemma fst_dict_set: "fst ` set (dict_set d k v) = insert k (fst ` set d)"
proof (induction d)
  case Nil
  show ?case by simp
next
  case (Cons p d)
  show ?case
  proof (cases "fst p = k")
    case True
    then show ?thesis by (simp add: dict_set_Cons)
  next
    case False
    then show ?thesis by (simp add: dict_set_Cons Cons.IH insert_commute)
  qed
qed

lemma distinct_fst_dict_set: "distinct (map fst d) \<Longrightarrow> distinct (map fst (dict_set d k v))"
proof (induction d)
  case Nil
  then show ?case by simp
next
  case (Cons p d)
  show ?case
  proof (cases "fst p = k")
    case True
    with Cons.prems show ?thesis by (simp add: dict_set_Cons)
  next
    case False
    with Cons show ?thesis by (simp add: dict_set_Cons fst_dict_set)
  qed
qed

lemma snd_dict_set: "snd ` set (dict_set d k v) \<subseteq> insert v (snd ` set d)"
proof (induction d)
  case Nil
  show ?case by simp
next
  case (Cons p d)
  show ?case
  proof (cases "fst p = k")
    case True
    then show ?thesis by (auto simp: dict_set_Cons)
  next
    case False
    with Cons.IH show ?thesis by (auto simp: dict_set_Cons)
  qed
qed

lemma distinct_snd_dict_set:
  "distinct (map snd d) \<Longrightarrow> v \<notin> snd ` set d \<Longrightarrow> distinct (map snd (dict_set d k v))"
proof (induction d)
  case Nil
  then show ?case by simp
next
  case (Cons p d)
  show ?case
  proof (cases "fst p = k")
    case True
    with Cons.prems show ?thesis by (simp add: dict_set_Cons)
  next
    case False
    have "snd p \<notin> snd ` set (dict_set d k v)"
      using snd_dict_set [of d k v] Cons.prems by auto
    with False Cons show ?thesis by (simp add: dict_set_Cons)
  qed
qed

definition names_once :: "nat \<Rightarrow> (color_interp \<times> nat) list \<Rightarrow> bool" where
  "names_once n d \<longleftrightarrow>
     distinct (map fst d) \<and> distinct (map snd d) \<and> (\<forall>v \<in> snd ` set d. 1 \<le> v \<and> v \<le> n)"

lemma names_once_dict_set:
  assumes "names_once n d"
  shows "names_once (Suc n) (dict_set d k (Suc n))"
proof -
  from assms have new: "Suc n \<notin> snd ` set d" by (auto simp: names_once_def)
  have "1 \<le> v \<and> v \<le> Suc n" if "v \<in> snd ` set (dict_set d k (Suc n))" for v
  proof -
    from that snd_dict_set [of d k "Suc n"] have "v = Suc n \<or> v \<in> snd ` set d" by auto
    with assms show ?thesis by (auto simp: names_once_def)
  qed
  with assms new show ?thesis
    unfolding names_once_def
    by (simp add: distinct_fst_dict_set distinct_snd_dict_set)
qed

lemma names_once_mono: "names_once n d \<Longrightarrow> names_once (Suc n) d"
  by (auto simp: names_once_def)

lemma band_roles_names_once: "names_once n (band_roles ds n)"
proof (induction n)
  case 0
  show ?case by (simp add: names_once_def band_roles_def)
next
  case (Suc n)
  have "[1..<Suc n + 1] = [1..<n + 1] @ [Suc n]" by simp
  then have step: "band_roles ds (Suc n) =
      (case GetRasterBand ds (Suc n) of
          None \<Rightarrow> band_roles ds n
        | Some band \<Rightarrow>
            if color_interpretation band \<in> set [Red, Green, Blue, Gray, Alpha, Palette]
            then dict_set (band_roles ds n) (color_interpretation band) (Suc n)
            else band_roles ds n)"
    unfolding band_roles_def by (simp only: fold_append comp_def fold_simps Let_def)
  show ?case
    unfolding step using Suc names_once_dict_set names_once_mono
    by (simp split: option.split)
qed

lemma getBandInterpretation_names_once:
  assumes "getBandInterpretation ds = Inr (m, bi)"
  shows "distinct (map fst bi) \<and> distinct (map snd bi)"
proof -
  let ?loop = "band_roles ds (length ds)"
  have loop: "names_once (length ds) ?loop" by (rule band_roles_names_once)
  have "bi = ?loop \<or> (bi = dict_set ?loop Alpha 4 \<and> 4 \<notin> snd ` set ?loop)"
    using assms unfolding getBandInterpretation_def Let_def
    by (simp split: if_splits option.splits)
  then show ?thesis
    using loop by (auto simp: names_once_def distinct_fst_dict_set distinct_snd_dict_set)
qed


subsection \<open>The loop over the colours\<close>

lemma WriteArray_Inr:
  assumes "WriteArray m n arr = Inr m'"
  shows "1 \<le> n" and "n \<le> length m" and "m' = m[n - 1 := (m ! (n - 1))\<lparr>band_array := arr\<rparr>]"
  using assms by (auto simp: WriteArray_def GetRasterBand_def split: if_splits)

lemma color_loop_length:
  assumes "for_each (\<lambda>color merged. case E color of
                        Inl e \<Rightarrow> Inl e
                      | Inr (n, raster_arr) \<Rightarrow> WriteArray merged n raster_arr) cs m = Inr m'"
  shows "length m' = length m"
proof -
  have "length s' = length s"
    if "(case E c of Inl e \<Rightarrow> Inl e | Inr (n, raster_arr) \<Rightarrow> WriteArray s n raster_arr) = Inr s'"
    for c s s'
    using that by (auto split: sum.splits dest: WriteArray_Inr(3))
  then show ?thesis
    using assms by (intro for_each_preserves [where R = "\<lambda>s s'. length s' = length s" and s' = m']) auto
qed

lemma color_loop_untouched:
  assumes "for_each (\<lambda>color merged. case E color of
                        Inl e \<Rightarrow> Inl e
                      | Inr (n, raster_arr) \<Rightarrow> WriteArray merged n raster_arr) cs m = Inr m'"
    and "\<forall>c \<in> set cs. \<forall>n' arr'. E c = Inr (n', arr') \<longrightarrow> n' \<noteq> n"
    and "1 \<le> n"
  shows "m' ! (n - 1) = m ! (n - 1)"
  using assms(1,2)
proof (induction cs arbitrary: m)
  case Nil
  then show ?case by simp
next
  case (Cons c cs)
  from Cons.prems(1) obtain n' arr' m1 where c: "E c = Inr (n', arr')"
    and w: "WriteArray m n' arr' = Inr m1"
    and rest: "for_each (\<lambda>color merged. case E color of
                        Inl e \<Rightarrow> Inl e
                      | Inr (n, raster_arr) \<Rightarrow> WriteArray merged n raster_arr) cs m1 = Inr m'"
    by (auto split: sum.splits)
  from Cons.prems(2) c have "n' \<noteq> n" by simp
  with WriteArray_Inr [OF w] assms(3) have "m1 ! (n - 1) = m ! (n - 1)" by simp
  moreover have "m' ! (n - 1) = m1 ! (n - 1)"
    using Cons.IH [OF rest] Cons.prems(2) by simp
  ultimately show ?case by simp
qed

lemma color_loop_written:
  assumes "for_each (\<lambda>color merged. case E color of
                        Inl e \<Rightarrow> Inl e
                      | Inr (n, raster_arr) \<Rightarrow> WriteArray merged n raster_arr) cs m = Inr m'"
    and "c \<in> set cs" and "E c = Inr (n, arr)"
    and "\<forall>c' \<in> set cs. \<forall>n' arr'. E c' = Inr (n', arr') \<longrightarrow> n' = n \<longrightarrow> c' = c"
  shows "1 \<le> n \<and> n \<le> length m \<and> band_array (m' ! (n - 1)) = arr"
  using assms(1,2,4)
proof (induction cs arbitrary: m)
  case Nil
  then show ?case by simp
next
  case (Cons c' cs)
  from Cons.prems(1) obtain n' arr' m1 where c': "E c' = Inr (n', arr')"
    and w: "WriteArray m n' arr' = Inr m1"
    and rest: "for_each (\<lambda>color merged. case E color of
                        Inl e \<Rightarrow> Inl e
                      | Inr (n, raster_arr) \<Rightarrow> WriteArray merged n raster_arr) cs m1 = Inr m'"
    by (auto split: sum.splits)
  note W = WriteArray_Inr [OF w]
  have len: "length m1 = length m" using W(3) by simp
  show ?case
  proof (cases "c \<in> set cs")
    case True
    from Cons.IH [OF rest True] Cons.prems(3) len show ?thesis by simp
  next
    case False
    with Cons.prems(2) have cc: "c' = c" by simp
    with c' assms(3) have n: "n' = n" "arr' = arr" by simp_all
    have "\<forall>x \<in> set cs. \<forall>n' arr'. E x = Inr (n', arr') \<longrightarrow> n' \<noteq> n"
      using Cons.prems(3) False by auto
    from color_loop_untouched [OF rest this] W(1) n
    have "m' ! (n - 1) = m1 ! (n - 1)" by simp
    also have "\<dots> = (m ! (n - 1))\<lparr>band_array := arr\<rparr>"
      using W n by simp
    finally show ?thesis using W n by simp
  qed
qed

lemma embed_color_Inr:
  assumes "embed_color self wm wbi t color = Inr (n, arr)"
  shows "\<exists>band wn an wm_band wm_alpha_band.
           map_of (band_interpretation self) color = Some n \<and>
           GetRasterBand (raster self) n = Some band \<and>
           map_of wbi color = Some wn \<and> GetRasterBand wm wn = Some wm_band \<and>
           map_of wbi Alpha = Some an \<and> GetRasterBand wm an = Some wm_alpha_band \<and>
           embed_band color band (band_array wm_band) (band_array wm_alpha_band) t = Inr arr"
  using assms unfolding embed_color_def dict_get_def
  by (simp split: sum.splits option.splits)


lemma color_loop_each:
  assumes "for_each (\<lambda>color merged. case E color of
                        Inl e \<Rightarrow> Inl e
                      | Inr (n, raster_arr) \<Rightarrow> WriteArray merged n raster_arr) cs m = Inr m'"
    and "c \<in> set cs"
  shows "\<exists>n arr. E c = Inr (n, arr)"
  using assms
proof (induction cs arbitrary: m)
  case Nil
  then show ?case by simp
next
  case (Cons c' cs)
  from Cons.prems(1) obtain n' arr' m1 where c': "E c' = Inr (n', arr')"
    and rest: "for_each (\<lambda>color merged. case E color of
                        Inl e \<Rightarrow> Inl e
                      | Inr (n, raster_arr) \<Rightarrow> WriteArray merged n raster_arr) cs m1 = Inr m'"
    by (auto split: sum.splits)
  show ?case
  proof (cases "c = c'")
    case True
    with c' show ?thesis by simp
  next
    case False
    with Cons.prems(2) have "c \<in> set cs" by simp
    from Cons.IH [OF rest this] show ?thesis .
  qed
qed

lemma shapes_update:
  assumes "k < length s" and "map length arr = map length (band_array (r ! k))"
    and "map (\<lambda>b. map length (band_array b)) s = map (\<lambda>b. map length (band_array b)) r"
  shows "map (\<lambda>b. map length (band_array b)) (s[k := (s ! k)\<lparr>band_array := arr\<rparr>])
         = map (\<lambda>b. map length (band_array b)) r"
proof -
  from assms(3) have len: "length s = length r" by (rule map_eq_imp_length_eq)
  have "map (\<lambda>b. map length (band_array b)) (s[k := (s ! k)\<lparr>band_array := arr\<rparr>])
        = (map (\<lambda>b. map length (band_array b)) s)[k := map length arr]"
    by (simp add: map_update)
  also have "\<dots> = (map (\<lambda>b. map length (band_array b)) r)[k := map length (band_array (r ! k))]"
    by (simp add: assms(2,3))
  also have "\<dots> = map (\<lambda>b. map length (band_array b)) r"
    using assms(1) len by (simp add: list_update_same_conv)
  finally show ?thesis .
qed

lemma snd_unique:
  assumes "distinct (map snd d)" and "(a, n) \<in> set d" and "(b, n) \<in> set d"
  shows "a = b"
proof -
  from assms(1) have "inj_on snd (set d)" by (simp add: distinct_map)
  from inj_onD [OF this, of "(a, n)" "(b, n)"] assms(2,3) show ?thesis by simp
qed

text \<open>
  Claim C4. For a \<^verbatim>\<open>Watermark\<close> object as \<^verbatim>\<open>__init__\<close> leaves it (its mode and band
  interpretation are those of its raster) and a prepared watermark \<open>wm\<close> on which
  \<^verbatim>\<open>embed_image\<close> returns: the output has the bands of the raster, each with the same
  number of rows and the same row lengths; and in every band the raster's band
  interpretation names, every pixel \<open>(i, j)\<close> where the watermark's value for that colour
  and its alpha satisfy \<open>wm_value * alpha \<le> 0.1\<close> holds the value it holds in the raster.
\<close>

theorem embed_image_frame:
  assumes init: "getBandInterpretation (raster self) = Inr (mode self, band_interpretation self)"
    and ok: "embed_image self wm transparency = Inr out"
  shows "map (\<lambda>b. map length (band_array b)) out =
           map (\<lambda>b. map length (band_array b)) (raster self) \<and>
    (\<exists>wm_mode wm_bandInterp. getBandInterpretation wm = Inr (wm_mode, wm_bandInterp) \<and>
       (\<forall>color n. (color, n) \<in> set (band_interpretation self) \<longrightarrow>
          (\<exists>wn an. dict_get wm_bandInterp color = Inr wn \<and>
                   dict_get wm_bandInterp Alpha = Inr an \<and>
             (\<forall>i j. i < length (band_array (raster self ! (n - 1))) \<longrightarrow>
                    j < length (band_array (raster self ! (n - 1)) ! i) \<longrightarrow>
                    band_array (wm ! (wn - 1)) ! i ! j / 255
                      * (band_array (wm ! (an - 1)) ! i ! j / 255) \<le> 1 / 10 \<longrightarrow>
                    band_array (out ! (n - 1)) ! i ! j
                      = band_array (raster self ! (n - 1)) ! i ! j))))"
proof -
  let ?bi = "band_interpretation self"
  let ?shape = "map (\<lambda>b. map length (band_array b))"
  from ok obtain wm_mode wbi where gw: "getBandInterpretation wm = Inr (wm_mode, wbi)"
    and loop: "for_each (\<lambda>color merged.
              case embed_color self wm wbi transparency color of
                Inl e \<Rightarrow> Inl e
              | Inr (n, raster_arr) \<Rightarrow> WriteArray merged n raster_arr)
            (map fst ?bi) (raster self) = Inr out"
    unfolding embed_image_def by (auto split: sum.splits if_splits)
  from getBandInterpretation_names_once [OF init]
  have dk: "distinct (map fst ?bi)" and dv: "distinct (map snd ?bi)" by simp_all
  have step: "?shape s = ?shape (raster self) \<longrightarrow> ?shape s' = ?shape (raster self)"
    if "(case embed_color self wm wbi transparency c of
                Inl e \<Rightarrow> Inl e
              | Inr (n, raster_arr) \<Rightarrow> WriteArray s n raster_arr) = Inr s'" for c s s'
  proof
    assume same: "?shape s = ?shape (raster self)"
    from that obtain n arr where e: "embed_color self wm wbi transparency c = Inr (n, arr)"
      and w: "WriteArray s n arr = Inr s'"
      by (auto split: sum.splits)
    note W = WriteArray_Inr [OF w]
    from embed_color_Inr [OF e] obtain band wm_band wm_alpha_band :: band
      where b: "GetRasterBand (raster self) n = Some band"
        and eb: "embed_band c band (band_array wm_band) (band_array wm_alpha_band) transparency = Inr arr"
      by blast
    from b have band: "band = raster self ! (n - 1)"
      by (simp add: GetRasterBand_def split: if_splits)
    from embed_band_frame [OF eb] have "map length arr = map length (band_array (raster self ! (n - 1)))"
      by (simp add: frame_def band)
    moreover have "n - 1 < length s" using W(1,2) by simp
    ultimately show "?shape s' = ?shape (raster self)"
      unfolding W(3) using same by (intro shapes_update)
  qed
  have "?shape (raster self) = ?shape (raster self) \<longrightarrow> ?shape out = ?shape (raster self)"
    using _ _ _ loop
    by (rule for_each_preserves [where R = "\<lambda>s s'. ?shape s = ?shape (raster self) \<longrightarrow> ?shape s' = ?shape (raster self)"])
       (use step in auto)
  then have dims: "?shape out = ?shape (raster self)" by simp
  have cells: "\<exists>wn an. dict_get wbi color = Inr wn \<and> dict_get wbi Alpha = Inr an \<and>
             (\<forall>i j. i < length (band_array (raster self ! (n - 1))) \<longrightarrow>
                    j < length (band_array (raster self ! (n - 1)) ! i) \<longrightarrow>
                    band_array (wm ! (wn - 1)) ! i ! j / 255
                      * (band_array (wm ! (an - 1)) ! i ! j / 255) \<le> 1 / 10 \<longrightarrow>
                    band_array (out ! (n - 1)) ! i ! j
                      = band_array (raster self ! (n - 1)) ! i ! j)"
    if cn: "(color, n) \<in> set ?bi" for color n
  proof -
    from cn have mem: "color \<in> set (map fst ?bi)" by force
    from color_loop_each [OF loop mem] obtain n' arr
      where e: "embed_color self wm wbi transparency color = Inr (n', arr)" by blast
    from embed_color_Inr [OF e] obtain band wm_band wm_alpha_band :: band and wn an
      where look: "map_of ?bi color = Some n'"
        and b: "GetRasterBand (raster self) n' = Some band"
        and wn: "map_of wbi color = Some wn" and wb: "GetRasterBand wm wn = Some wm_band"
        and an: "map_of wbi Alpha = Some an" and ab: "GetRasterBand wm an = Some wm_alpha_band"
        and eb: "embed_band color band (band_array wm_band) (band_array wm_alpha_band) transparency = Inr arr"
      by blast
    from dk cn have "map_of ?bi color = Some n" by (rule map_of_is_SomeI)
    with look have nn: "n' = n" by simp
    have uniq: "\<forall>c' \<in> set (map fst ?bi). \<forall>m arr'.
        embed_color self wm wbi transparency c' = Inr (m, arr') \<longrightarrow> m = n \<longrightarrow> c' = color"
    proof (intro ballI allI impI)
      fix c' m arr'
      assume "embed_color self wm wbi transparency c' = Inr (m, arr')" and "m = n"
      with embed_color_Inr have "map_of ?bi c' = Some n" by blast
      then have "(c', n) \<in> set ?bi" by (rule map_of_SomeD)
      with dv show "c' = color" using cn by (rule snd_unique)
    qed
    from color_loop_written [OF loop mem e [unfolded nn] uniq]
    have written: "band_array (out ! (n - 1)) = arr" by simp
    from b nn have band: "band = raster self ! (n - 1)"
      by (simp add: GetRasterBand_def split: if_splits)
    from wb have wmb: "wm_band = wm ! (wn - 1)"
      by (simp add: GetRasterBand_def split: if_splits)
    from ab have wab: "wm_alpha_band = wm ! (an - 1)"
      by (simp add: GetRasterBand_def split: if_splits)
    from embed_band_frame [OF eb]
    have fr: "\<not> over_threshold (band_array (wm ! (wn - 1)) ! i ! j)
                               (band_array (wm ! (an - 1)) ! i ! j) \<Longrightarrow>
             arr ! i ! j = band_array (raster self ! (n - 1)) ! i ! j" for i j
      by (simp add: frame_def band wmb wab)
    have "band_array (out ! (n - 1)) ! i ! j = band_array (raster self ! (n - 1)) ! i ! j"
      if "band_array (wm ! (wn - 1)) ! i ! j / 255
            * (band_array (wm ! (an - 1)) ! i ! j / 255) \<le> 1 / 10" for i j
    proof -
      from that have "\<not> over_threshold (band_array (wm ! (wn - 1)) ! i ! j)
                               (band_array (wm ! (an - 1)) ! i ! j)"
        unfolding over_threshold_def by (simp only: not_less)
      from fr [OF this] written show ?thesis by simp
    qed
    moreover have "dict_get wbi color = Inr wn" "dict_get wbi Alpha = Inr an"
      using wn an by (simp_all add: dict_get_def)
    ultimately show ?thesis by blast
  qed
  from dims gw cells show ?thesis by blast
qed


subsection \<open>The scenario of one pixel\<close>

text \<open>
  \<^verbatim>\<open>_calcMargins\<close>: the margins \<open>(mt, mr, mb, ml)\<close> that pad the watermark to the raster's
  size (the source's \<^verbatim>\<open>size\<close> is \<open>wm_size\<close> here). \<^verbatim>\<open>'left' in position\<close> is the substring test.
\<close>

definition calcMargins ::
  "int \<times> int \<Rightarrow> int \<times> int \<Rightarrow> string \<Rightarrow> py_error + int \<times> int \<times> int \<times> int" where
  "calcMargins wall_size wm_size position =
     (let possible_positions = [''topleft'', ''topright'', ''bottomright'', ''bottomleft'', ''center'']
      in if position \<notin> set possible_positions then Inl ValueError
         else
           let (ml, mr) =
                 (if sublist ''left'' position then (0, fst wall_size - fst wm_size)
                  else if sublist ''right'' position then (fst wall_size - fst wm_size, 0)
                  else (py_round (real_of_int (fst wall_size - fst wm_size) / 2),
                        py_round (real_of_int (fst wall_size - fst wm_size) / 2)));
               (mt, mb) =
                 (if sublist ''top'' position then (0, snd wall_size - snd wm_size)
                  else if sublist ''bottom'' position then (snd wall_size - snd wm_size, 0)
                  else (py_round (real_of_int (snd wall_size - snd wm_size) / 2),
                        py_round (real_of_int (snd wall_size - snd wm_size) / 2)))
           in Inr (mt, mr, mb, ml))"

text \<open>A band of one pixel; its statistics are those of the single value.\<close>

definition pixel_band :: "color_interp \<Rightarrow> real \<Rightarrow> band" where
  "pixel_band c v = \<lparr>color_interpretation = c, band_array = [[v]], no_data_value = None,
                    band_statistics = (v, v, v, 0)\<rparr>"

definition rgba_pixel :: "real \<Rightarrow> real \<Rightarrow> real \<Rightarrow> real \<Rightarrow> dataset" where
  "rgba_pixel r g b a = [pixel_band Red r, pixel_band Green g, pixel_band Blue b, pixel_band Alpha a]"

theorem embed_image_frame_witness:
  "getBandInterpretation
     (raster \<lparr>raster = [\<lparr>color_interpretation = Gray, band_array = [[50, 100]],
                           no_data_value = None, band_statistics = (50, 100, 75, 25)\<rparr>],
              mode = Grayscale, band_interpretation = [(Gray, 1)], paletteCount = None\<rparr>)
     = Inr (Grayscale, [(Gray, 1)]) \<and>
   embed_image
     \<lparr>raster = [\<lparr>color_interpretation = Gray, band_array = [[50, 100]],
                  no_data_value = None, band_statistics = (50, 100, 75, 25)\<rparr>],
      mode = Grayscale, band_interpretation = [(Gray, 1)], paletteCount = None\<rparr>
     [\<lparr>color_interpretation = Gray, band_array = [[255, 10]],
        no_data_value = None, band_statistics = (10, 255, 265 / 2, 245 / 2)\<rparr>,
      \<lparr>color_interpretation = Alpha, band_array = [[255, 255]],
        no_data_value = None, band_statistics = (255, 255, 255, 0)\<rparr>]
     1
     = Inr [\<lparr>color_interpretation = Gray, band_array = [[100, 100]],
              no_data_value = None, band_statistics = (50, 100, 75, 25)\<rparr>] \<and>
   map (\<lambda>b. map length (band_array b))
     [\<lparr>color_interpretation = Gray, band_array = [[100, 100]],
        no_data_value = None, band_statistics = (50, 100, 75, 25)\<rparr>] = [[2]]"
proof -
  let ?self = "\<lparr>raster = [\<lparr>color_interpretation = Gray, band_array = [[50, 100]],
                           no_data_value = None, band_statistics = (50, 100, 75, 25)\<rparr>],
              mode = Grayscale, band_interpretation = [(Gray, 1)], paletteCount = None\<rparr>"
  let ?wm = "[\<lparr>color_interpretation = Gray, band_array = [[255, 10]],
        no_data_value = None, band_statistics = (10, 255, 265 / 2, 245 / 2)\<rparr>,
      \<lparr>color_interpretation = Alpha, band_array = [[255, 255]],
        no_data_value = None, band_statistics = (255, 255, 255, 0)\<rparr>]"
  let ?out = "[\<lparr>color_interpretation = Gray, band_array = [[100, 100]],
              no_data_value = None, band_statistics = (50, 100, 75, 25)\<rparr>]"
  have init: "getBandInterpretation (raster ?self) = Inr (mode ?self, band_interpretation ?self)"
    by code_simp
  have ok: "embed_image ?self ?wm 1 = Inr ?out"
    by code_simp
  from embed_image_frame [OF init ok]
  have "map (\<lambda>b. map length (band_array b)) ?out = map (\<lambda>b. map length (band_array b)) (raster ?self)"
    by (rule conjunct1)
  with init ok show ?thesis by simp
qed

text \<open>
  Claim C5, as the code computes it. The raster is one RGBA pixel \<open>(200, 200, 200, 255)\<close>
  and the watermark one pixel \<open>(0, 0, 0, 255)\<close>. With \<open>fit = original\<close> and
  \<open>position = center\<close> the margins are all 0, so the prepared watermark is that one pixel.
  Kept in RGBA, its colour bands have \<open>wm_value * alpha = 0 \<le> 0.1\<close>: the colour bands of
  the raster are left as they are, and the alpha band, over the threshold but neither
  nodata nor 0, is left too. The output pixel is \<open>(200, 200, 200, 255)\<close>.
\<close>

theorem embed_image_black_pixel:
  "calcMargins (1, 1) (1, 1) ''center'' = Inr (0, 0, 0, 0) \<and>
   getBandInterpretation (rgba_pixel 200 200 200 255) =
     Inr (RGBA, [(Red, 1), (Green, 2), (Blue, 3), (Alpha, 4)]) \<and>
   embed_image
     \<lparr>raster = rgba_pixel 200 200 200 255, mode = RGBA,
      band_interpretation = [(Red, 1), (Green, 2), (Blue, 3), (Alpha, 4)],
      paletteCount = None\<rparr>
     (rgba_pixel 0 0 0 255) 1
   = Inr (rgba_pixel 200 200 200 255)"
  by code_simp

text \<open>
  The output the claim states, \<open>(0, 0, 0, 255)\<close>, is not produced, also not up to a
  rounding step of 1 in each band.
\<close>

theorem embed_image_black_pixel_counterexample:
  "\<not> (\<exists>out r g b a.
        embed_image
          \<lparr>raster = rgba_pixel 200 200 200 255, mode = RGBA,
           band_interpretation = [(Red, 1), (Green, 2), (Blue, 3), (Alpha, 4)],
           paletteCount = None\<rparr>
          (rgba_pixel 0 0 0 255) 1 = Inr out \<and>
        map band_array out = [[[r]], [[g]], [[b]], [[a]]] \<and>
        \<bar>r - 0\<bar> \<le> 1 \<and> \<bar>g - 0\<bar> \<le> 1 \<and> \<bar>b - 0\<bar> \<le> 1 \<and> \<bar>a - 255\<bar> \<le> 1)"
proof -
  have "embed_image
          \<lparr>raster = rgba_pixel 200 200 200 255, mode = RGBA,
           band_interpretation = [(Red, 1), (Green, 2), (Blue, 3), (Alpha, 4)],
           paletteCount = None\<rparr>
          (rgba_pixel 0 0 0 255) 1 = Inr (rgba_pixel 200 200 200 255)"
    by code_simp
  then show ?thesis
    by (auto simp: rgba_pixel_def pixel_band_def)
qed

text \<open>
  With the watermark converted to gray and alpha (what \<^verbatim>\<open>prepareWatermark\<close> does unless
  \<^verbatim>\<open>to_gray=False\<close> is passed), the prepared watermark has no band for \<^verbatim>\<open>'Red'\<close> and the
  lookup \<^verbatim>\<open>wm_bandInterp[color]\<close> raises KeyError.
\<close>

lemma embed_image_gray_watermark_on_rgba:
  "embed_image
     \<lparr>raster = rgba_pixel 200 200 200 255, mode = RGBA,
      band_interpretation = [(Red, 1), (Green, 2), (Blue, 3), (Alpha, 4)],
      paletteCount = None\<rparr>
     [pixel_band Gray 0, pixel_band Alpha 255] 1 = Inl KeyError"
  by code_simp



section \<open>Value transform (vector\_ipr.transform\_value)\<close>

subsection \<open>numpy's generators\<close>

text \<open>
  The generators are numpy's. The values they draw are a parameter of the model: a record
  of the operations the code calls, over a type \<open>'st\<close> of generator states. A draw returns
  the value and the state after it. \<open>RandomState\<close> is \<^verbatim>\<open>np.random.RandomState(seed=n)\<close> for
  an integer \<open>n\<close>, \<open>RandomState_MT19937\<close> is
  \<^verbatim>\<open>np.random.RandomState(seed=np.random.MT19937(np.random.SeedSequence(n)))\<close>,
  \<open>randint\<close> is \<^verbatim>\<open>rs.randint(low, high)\<close> and \<open>randint_size\<close> is
  \<^verbatim>\<open>rs.randint(low, high, size=n)\<close>.
\<close>

record 'st numpy_random =
  RandomState :: "int \<Rightarrow> 'st"
  RandomState_MT19937 :: "nat \<Rightarrow> 'st"
  randint :: "'st \<Rightarrow> int \<Rightarrow> int \<Rightarrow> int \<times> 'st"
  randint_size :: "'st \<Rightarrow> int \<Rightarrow> int \<Rightarrow> nat \<Rightarrow> int list \<times> 'st"

text \<open>
  The arguments numpy refuses, each with ValueError: a seed of \<^verbatim>\<open>RandomState\<close> outside
  \<open>0..2^32 - 1\<close>; for \<^verbatim>\<open>randint\<close>, whose values are 64-bit integers, a \<open>low\<close> under
  \<open>-2^63\<close>, a \<open>high\<close> over \<open>2^63\<close>, and an empty range. A request of \<^verbatim>\<open>size=0\<close> returns
  the empty array before the range is looked at.
\<close>

definition py_RandomState :: "'st numpy_random \<Rightarrow> int \<Rightarrow> py_error + 'st" where
  "py_RandomState np seed =
     (if 0 \<le> seed \<and> seed \<le> 2 ^ 32 - 1 then Inr (RandomState np seed) else Inl ValueError)"

definition randint_refused :: "int \<Rightarrow> int \<Rightarrow> bool" where
  "randint_refused low high \<longleftrightarrow> low < - (2 ^ 63) \<or> high > 2 ^ 63 \<or> low \<ge> high"

definition py_randint :: "'st numpy_random \<Rightarrow> 'st \<Rightarrow> int \<Rightarrow> int \<Rightarrow> py_error + int \<times> 'st" where
  "py_randint np rs low high =
     (if randint_refused low high then Inl ValueError else Inr (randint np rs low high))"


text \<open>
  The one property of the drawn values that the theorems below assume where they say so:
  a draw from a non-empty range \<open>[low, high)\<close> lies in it, and a draw of \<open>n\<close> values has
  \<open>n\<close> values, each in the range.
\<close>

definition draws_in_range :: "'st numpy_random \<Rightarrow> bool" where
  "draws_in_range np \<longleftrightarrow>
     (\<forall>st low high. low < high \<longrightarrow>
        low \<le> fst (randint np st low high) \<and> fst (randint np st low high) < high) \<and>
     (\<forall>st low high n. low < high \<longrightarrow>
        length (fst (randint_size np st low high n)) = n \<and>
        (\<forall>v \<in> set (fst (randint_size np st low high n)). low \<le> v \<and> v < high))"

subsection \<open>Python strings and integers\<close>

text \<open>
  A Python \<^verbatim>\<open>str\<close> is a \<open>string\<close>, one \<open>char\<close> per character. \<^verbatim>\<open>str(n)\<close> of an integer is
  its decimal numeral, \<^verbatim>\<open>int(s)\<close> of a string of decimal digits its value.
\<close>

definition is_digit :: "char \<Rightarrow> bool" where
  "is_digit c \<longleftrightarrow> c \<in> set ''0123456789''"

definition digit_char :: "nat \<Rightarrow> char" where
  "digit_char d = char_of (48 + d)"

definition digit_val :: "char \<Rightarrow> nat" where
  "digit_val c = of_char c - 48"

function digits10 :: "nat \<Rightarrow> string" where
  "digits10 n = (if n < 10 then [digit_char n] else digits10 (n div 10) @ [digit_char (n mod 10)])"
  by pat_completeness auto
termination
  by (relation "measure id") auto

declare digits10.simps [simp del]

definition py_str :: "int \<Rightarrow> string" where
  "py_str i = (if i < 0 then CHR ''-'' # digits10 (nat (- i)) else digits10 (nat i))"

definition py_int :: "string \<Rightarrow> int" where
  "py_int s = int (foldl (\<lambda>n c. 10 * n + digit_val c) 0 s)"

text \<open>
  \<^verbatim>\<open>re.compile('([1-9][0-9]*)').findall(s)\<close>: the scan goes from left to right; at a
  character in \<open>1..9\<close> it takes the digits that follow, as many as there are, and goes on
  after them.
\<close>

function findall :: "string \<Rightarrow> string list" where
  "findall [] = []"
| "findall (c # cs) =
     (if c \<in> set ''123456789''
      then (c # takeWhile is_digit cs) # findall (dropWhile is_digit cs)
      else findall cs)"
  by pat_completeness auto
termination
  by (relation "measure length") (auto simp: length_dropWhile_le le_imp_less_Suc)

text \<open>
  \<^verbatim>\<open>s.replace(old, new)\<close>: every occurrence of \<open>old\<close>, found from left to right without
  overlap, becomes \<open>new\<close>. (With an empty \<open>old\<close>, \<open>new\<close> goes before every character and
  at the end.)
\<close>

function replace_from :: "string \<Rightarrow> string \<Rightarrow> string \<Rightarrow> string" where
  "replace_from [] old new = []"
| "replace_from (c # cs) old new =
     (if old \<noteq> [] \<and> prefix old (c # cs)
      then new @ replace_from (drop (length old) (c # cs)) old new
      else c # replace_from cs old new)"
  by pat_completeness auto
termination
  by (relation "measure (\<lambda>(s, old, new). length s)") (auto simp: neq_Nil_conv)

definition replace :: "string \<Rightarrow> string \<Rightarrow> string \<Rightarrow> string" where
  "replace s old new =
     (if old = [] then new @ concat (map (\<lambda>c. c # new) s) else replace_from s old new)"

subsection \<open>transform\_value\<close>

text \<open>
  The values of a dataframe cell that the transform tells apart: a Python or numpy
  integer, a string, and \<open>PyNone\<close> for \<^verbatim>\<open>None\<close> and for a value of any other type, on which
  the function falls through and returns \<^verbatim>\<open>None\<close>. A float goes through \<^verbatim>\<open>str(value)\<close> and
  \<^verbatim>\<open>float(...)\<close>; floats are not among the values of this model.
\<close>

datatype pyval = PyInt int | PyStr string | PyNone

text \<open>
  The integer branch, after \<^verbatim>\<open>rs = np.random.RandomState(seed=seed)\<close>:
  \<^verbatim>\<open>nod = len(str(value))\<close> and \<^verbatim>\<open>rs.randint(10**(nod-1), 10**nod)\<close>. The generator is
  dropped after the draw.
\<close>

definition int_branch :: "'st numpy_random \<Rightarrow> 'st \<Rightarrow> int \<Rightarrow> py_error + int" where
  "int_branch np rs v =
     (let nod = length (py_str v)
      in case py_randint np rs (10 ^ (nod - 1)) (10 ^ nod) of
           Inl e \<Rightarrow> Inl e
         | Inr (r, rs') \<Rightarrow> Inr r)"

text \<open>
  The call of the function on an integer, as the string branch makes it on
  \<^verbatim>\<open>int(match)\<close>: the generator is made from the seed first, then the integer branch runs.
\<close>

definition transform_int :: "'st numpy_random \<Rightarrow> int \<Rightarrow> int \<Rightarrow> py_error + int" where
  "transform_int np v seed =
     (case py_RandomState np seed of
        Inl e \<Rightarrow> Inl e
      | Inr rs \<Rightarrow> int_branch np rs v)"

text \<open>
  The string branch: the loop over \<^verbatim>\<open>enumerate(matches)\<close>, which calls the function
  itself on \<^verbatim>\<open>int(match)\<close> with \<^verbatim>\<open>seed + i\<close> and replaces in the current value.
\<close>

fun transform_matches ::
  "'st numpy_random \<Rightarrow> int \<Rightarrow> string \<Rightarrow> int \<Rightarrow> string list \<Rightarrow> py_error + string" where
  "transform_matches np seed v i [] = Inr v"
| "transform_matches np seed v i (m # matches) =
     (case transform_int np (py_int m) (seed + i) of
        Inl e \<Rightarrow> Inl e
      | Inr t \<Rightarrow>
          let transformed = py_str t
          in transform_matches np seed (replace v m transformed) (i + 1) matches)"

text \<open>
  The function: the generator is made from the seed before the type of the value is
  looked at, so a seed that numpy refuses raises for every value.
\<close>

definition transform_value :: "'st numpy_random \<Rightarrow> pyval \<Rightarrow> int \<Rightarrow> py_error + pyval" where
  "transform_value np v seed =
     (case py_RandomState np seed of
        Inl e \<Rightarrow> Inl e
      | Inr rs \<Rightarrow>
          (case v of
             PyInt n \<Rightarrow> (case int_branch np rs n of Inl e \<Rightarrow> Inl e | Inr r \<Rightarrow> Inr (PyInt r))
           | PyStr s \<Rightarrow>
               (case transform_matches np seed s 0 (findall s) of
                  Inl e \<Rightarrow> Inl e
                | Inr t \<Rightarrow> Inr (PyStr t))
           | PyNone \<Rightarrow> Inr PyNone))"



subsection \<open>Decimal numerals\<close>

lemma length_digits10:
  "0 < d \<Longrightarrow> 10 ^ (d - 1) \<le> n \<Longrightarrow> n < 10 ^ d \<Longrightarrow> length (digits10 n) = d"
proof (induction d arbitrary: n)
  case 0
  then show ?case by simp
next
  case (Suc d)
  show ?case
  proof (cases "d = 0")
    case True
    with Suc.prems show ?thesis by (simp add: digits10.simps)
  next
    case False
    then obtain e where d: "d = Suc e" by (cases d) auto
    from Suc.prems(2) d have lo: "10 * 10 ^ e \<le> n" by simp
    from Suc.prems(3) d have hi: "n < 10 * (10 * 10 ^ e)" by simp
    have "(1::nat) \<le> 10 ^ e" by simp
    with lo have "10 \<le> n" by linarith
    then have big: "\<not> n < 10" by simp
    have "10 ^ (d - 1) \<le> n div 10" using lo d by (simp add: less_eq_div_iff_mult_less_eq)
    moreover have "n div 10 < 10 ^ d" using hi d by (simp add: div_less_iff_less_mult)
    ultimately have "length (digits10 (n div 10)) = d"
      using Suc.IH False by simp
    with big show ?thesis by (subst digits10.simps) simp
  qed
qed

lemma length_py_str:
  assumes "0 < d" and "10 ^ (d - 1) \<le> v" and "v < 10 ^ d"
  shows "length (py_str v) = d"
proof -
  have "(0::int) < 10 ^ (d - 1)" by simp
  with assms(2) have pos: "0 < v" by linarith
  have "10 ^ (d - 1) \<le> nat v"
    using assms(2) pos by (simp add: le_nat_iff)
  moreover have "nat v < 10 ^ d"
    using assms(3) pos by (simp add: nat_less_iff)
  ultimately have "length (digits10 (nat v)) = d"
    using assms(1) by (intro length_digits10)
  with pos show ?thesis by (simp add: py_str_def)
qed

text \<open>A generator for the witnesses: a linear congruential one that obeys the range.\<close>

definition lcg_next :: "nat \<Rightarrow> nat" where
  "lcg_next st = (1103515245 * st + 12345) mod 2147483648"

fun lcg_draws :: "nat \<Rightarrow> int \<Rightarrow> int \<Rightarrow> nat \<Rightarrow> int list \<times> nat" where
  "lcg_draws st low high 0 = ([], st)"
| "lcg_draws st low high (Suc n) =
     (let (vs, st') = lcg_draws (lcg_next st) low high n
      in ((low + int (lcg_next st) mod (high - low)) # vs, st'))"

definition lcg :: "nat numpy_random" where
  "lcg = \<lparr>RandomState = nat, RandomState_MT19937 = (\<lambda>n. n mod 2147483648),
          randint = (\<lambda>st low high. (low + int (lcg_next st) mod (high - low), lcg_next st)),
          randint_size = lcg_draws\<rparr>"

lemma lcg_value_in_range:
  assumes "low < high"
  shows "low \<le> low + int m mod (high - low)" and "low + int m mod (high - low) < high"
proof -
  from assms have "0 < high - low" by simp
  then have "0 \<le> int m mod (high - low)" "int m mod (high - low) < high - low"
    by (rule pos_mod_sign, rule pos_mod_bound)
  then show "low \<le> low + int m mod (high - low)" and "low + int m mod (high - low) < high"
    by linarith+
qed

lemma lcg_draws_in_range:
  "low < high \<Longrightarrow> length (fst (lcg_draws st low high n)) = n \<and>
     (\<forall>v \<in> set (fst (lcg_draws st low high n)). low \<le> v \<and> v < high)"
proof (induction n arbitrary: st)
  case 0
  show ?case by simp
next
  case (Suc n)
  obtain vs st' where r: "lcg_draws (lcg_next st) low high n = (vs, st')" by (cases "lcg_draws (lcg_next st) low high n")
  from Suc.IH [OF Suc.prems, of "lcg_next st"] r
  have "length vs = n" "\<forall>v \<in> set vs. low \<le> v \<and> v < high" by simp_all
  moreover have "low \<le> low + int (lcg_next st) mod (high - low)"
    "low + int (lcg_next st) mod (high - low) < high"
    using Suc.prems lcg_value_in_range by simp_all
  ultimately show ?case by (simp add: r)
qed

lemma draws_in_range_lcg: "draws_in_range lcg"
  unfolding draws_in_range_def lcg_def
  using lcg_draws_in_range lcg_value_in_range by simp


lemma int64_bounds:
  assumes "d \<le> 18"
  shows "(10::int) ^ d \<le> 2 ^ 63" and "- (2 ^ 63) \<le> (10::int) ^ (d - 1)"
proof -
  have "(10::int) ^ d \<le> 10 ^ 18" using assms by (intro power_increasing) simp_all
  also have "\<dots> \<le> 2 ^ 63" by simp
  finally show "(10::int) ^ d \<le> 2 ^ 63" .
  have "- (2 ^ 63) \<le> (0::int)" by simp
  also have "\<dots> \<le> 10 ^ (d - 1)" by simp
  finally show "- (2 ^ 63) \<le> (10::int) ^ (d - 1)" .
qed

lemma int_branch_range:
  assumes "draws_in_range np" and "0 < d" and "d \<le> 18" and "10 ^ (d - 1) \<le> v" and "v < 10 ^ d"
  shows "int_branch np rs v = Inr (fst (randint np rs (10 ^ (d - 1)) (10 ^ d)))"
    and "10 ^ (d - 1) \<le> fst (randint np rs (10 ^ (d - 1)) (10 ^ d))"
    and "fst (randint np rs (10 ^ (d - 1)) (10 ^ d)) < 10 ^ d"
proof -
  have nod: "length (py_str v) = d" using assms(2,4,5) by (rule length_py_str)
  have lt: "(10::int) ^ (d - 1) < 10 ^ d" using assms(2) by (simp add: power_strict_increasing)
  with int64_bounds [OF assms(3)] have ok: "\<not> randint_refused (10 ^ (d - 1)) (10 ^ d)"
    unfolding randint_refused_def by linarith
  show "int_branch np rs v = Inr (fst (randint np rs (10 ^ (d - 1)) (10 ^ d)))"
    unfolding int_branch_def py_randint_def Let_def nod
    by (simp only: ok if_False sum.case) (simp add: case_prod_beta)
  from assms(1) lt show "10 ^ (d - 1) \<le> fst (randint np rs (10 ^ (d - 1)) (10 ^ d))"
    and "fst (randint np rs (10 ^ (d - 1)) (10 ^ d)) < 10 ^ d"
    unfolding draws_in_range_def by blast+
qed


text \<open>
  Claim C6, as the code has it. For an integer \<open>v\<close> of \<open>d\<close> decimal digits,
  \<open>10^(d-1) \<le> v < 10^d\<close>, with \<open>d\<close> at most 18, and a seed in \<open>0..2^32 - 1\<close>,
  \<^verbatim>\<open>transform_value(v, seed)\<close> returns an integer in \<open>[10^(d-1), 10^d)\<close>, so of \<open>d\<close> digits
  again; it is the first draw of the generator made from \<open>seed\<close>, a function of \<open>seed\<close>
  and \<open>d\<close> alone.
\<close>

theorem transform_value_int:
  assumes "draws_in_range np" and "0 < d" and "d \<le> 18"
    and "10 ^ (d - 1) \<le> v" and "v < 10 ^ d"
    and "0 \<le> seed" and "seed \<le> 2 ^ 32 - 1"
  shows "\<exists>r. transform_value np (PyInt v) seed = Inr (PyInt r) \<and>
             10 ^ (d - 1) \<le> r \<and> r < 10 ^ d \<and> length (py_str r) = d \<and>
             r = fst (randint np (RandomState np seed) (10 ^ (d - 1)) (10 ^ d))"
proof -
  let ?r = "fst (randint np (RandomState np seed) (10 ^ (d - 1)) (10 ^ d))"
  note b = int_branch_range [OF assms(1-5), of "RandomState np seed"]
  have "transform_value np (PyInt v) seed = Inr (PyInt ?r)"
    using assms(6,7) by (simp add: transform_value_def py_RandomState_def b(1))
  moreover have "length (py_str ?r) = d" using assms(2) b(2,3) by (rule length_py_str)
  ultimately show ?thesis using b(2,3) by blast
qed

theorem transform_value_int_witness:
  "draws_in_range lcg \<and> (0::nat) < 4 \<and> (4::nat) \<le> 18 \<and>
   (10::int) ^ (4 - 1) \<le> 1234 \<and> (1234::int) < 10 ^ 4 \<and> (0::int) \<le> 42 \<and> (42::int) \<le> 2 ^ 32 - 1 \<and>
   (\<exists>r. transform_value lcg (PyInt 1234) 42 = Inr (PyInt r) \<and>
        10 ^ (4 - 1) \<le> r \<and> r < 10 ^ 4 \<and> length (py_str r) = 4 \<and>
        r = fst (randint lcg (RandomState lcg 42) (10 ^ (4 - 1)) (10 ^ 4)))"
proof -
  have h: "(0::nat) < 4" "(4::nat) \<le> 18" "(10::int) ^ (4 - 1) \<le> 1234" "(1234::int) < 10 ^ 4"
    "(0::int) \<le> 42" "(42::int) \<le> 2 ^ 32 - 1"
    by simp_all
  from transform_value_int [OF draws_in_range_lcg h]
  have "\<exists>r. transform_value lcg (PyInt 1234) 42 = Inr (PyInt r) \<and>
        10 ^ (4 - 1) \<le> r \<and> r < 10 ^ 4 \<and> length (py_str r) = 4 \<and>
        r = fst (randint lcg (RandomState lcg 42) (10 ^ (4 - 1)) (10 ^ 4))" .
  with draws_in_range_lcg h show ?thesis by (intro conjI)
qed

text \<open>
  Claim C6 as stated, for every positive integer and every seed, fails on either side of
  these bounds, whatever the generator draws: the integer \<open>10^18\<close> has 19 digits and
  \<^verbatim>\<open>randint(10**18, 10**19)\<close> is refused, its \<open>high\<close> being over \<open>2^63\<close>; and the seed \<open>-1\<close>
  is refused by \<^verbatim>\<open>RandomState\<close>.
\<close>

theorem transform_value_int_counterexample:
  "\<forall>np :: 'st numpy_random.
     transform_value np (PyInt (10 ^ 18)) 42 = Inl ValueError \<and>
     transform_value np (PyInt 1234) (- 1) = Inl ValueError"
proof (intro allI conjI)
  fix np :: "'st numpy_random"
  have "length (py_str (10 ^ 18)) = 19"
    by (rule length_py_str) simp_all
  moreover have "randint_refused (10 ^ (19 - 1)) (10 ^ 19)"
    by (simp add: randint_refused_def)
  ultimately show "transform_value np (PyInt (10 ^ 18)) 42 = Inl ValueError"
    by (simp add: transform_value_def py_RandomState_def int_branch_def py_randint_def)
  show "transform_value np (PyInt 1234) (- 1) = Inl ValueError"
    by (simp add: transform_value_def py_RandomState_def)
qed




subsection \<open>The string branch\<close>


lemma findall_examples:
  "findall ''3 13'' = [''3'', ''13'']" "findall ''3 23'' = [''3'', ''23'']"
  "findall ''4 14'' = [''4'', ''14'']" "findall ''4 24'' = [''4'', ''24'']"
  by (simp_all add: is_digit_def)








subsection \<open>What the string branch keeps\<close>








































section \<open>Keyed generator (vector\_ipr.Ipr.\_random\_state)\<close>

text \<open>
  The marker id and the secret key enter only through \<^verbatim>\<open>encode()\<close>; both are held as the
  bytes of their UTF-8 encoding, one \<open>char\<close> per byte. SHA-512 is hashlib's and a
  parameter here, a function from byte strings to digests of 512 bits; the two calls
  \<^verbatim>\<open>m.update(uuid.encode())\<close> and \<^verbatim>\<open>m.update(key.encode())\<close> feed it the bytes of the id
  followed by the bytes of the key. \<^verbatim>\<open>int(m.hexdigest(), 16)\<close> is the digest read as a
  number. \<open>env\<close> is the value of the environment variable \<^verbatim>\<open>SECRET_KEY\<close> and \<open>self_key\<close>
  the field \<^verbatim>\<open>self.__key\<close>; \<^verbatim>\<open>getenv('SECRET_KEY', default=self.__key)\<close> takes the
  variable when it is set.
\<close>

type_synonym bytes = string

definition getenv_default :: "'a option \<Rightarrow> 'a option \<Rightarrow> 'a option" where
  "getenv_default env dflt = (case env of Some v \<Rightarrow> Some v | None \<Rightarrow> dflt)"

definition keyed_seed :: "(bytes \<Rightarrow> 512 word) \<Rightarrow> bytes \<Rightarrow> bytes \<Rightarrow> nat" where
  "keyed_seed sha512 uuid key = unat (sha512 (uuid @ key))"

definition random_state ::
  "(bytes \<Rightarrow> 512 word) \<Rightarrow> 'st numpy_random \<Rightarrow> bytes option \<Rightarrow> bytes option \<Rightarrow> bytes \<Rightarrow>
   py_error + 'st" where
  "random_state sha512 np env self_key uuid =
     (case getenv_default env self_key of
        None \<Rightarrow> Inl InitializeException
      | Some key \<Rightarrow>
          let seed = keyed_seed sha512 uuid key
          in Inr (RandomState_MT19937 np seed))"



lemma random_state_key:
  "random_state sha512 np env key uuid =
     (case getenv_default env key of
        None \<Rightarrow> Inl InitializeException
      | Some k \<Rightarrow> Inr (RandomState_MT19937 np (keyed_seed sha512 uuid k)))"
  by (simp add: random_state_def Let_def split: option.split)

lemma random_state_unset:
  "random_state sha512 np None None uuid = Inl InitializeException"
  by (simp add: random_state_key getenv_default_def)

text \<open>
  The digest has 512 bits and marker ids are texts of any length, so two different marker
  ids with the same seed exist for every key, whatever function SHA-512 is; they are
  found already among the ids \<open>a\<close>, \<open>aa\<close>, \<open>aaa\<close>, \dots{} No seed is therefore different
  for every pair of ids, only for the pairs on which the digest does not collide.
\<close>

lemma collision_exists:
  fixes f :: "nat \<Rightarrow> 512 word"
  shows "\<exists>n n'. n \<noteq> n' \<and> f n = f n'"
proof (rule ccontr)
  assume "\<not> (\<exists>n n'. n \<noteq> n' \<and> f n = f n')"
  then have "inj f" by (auto simp: inj_on_def)
  moreover have "finite (range f)" by (rule finite_subset [OF subset_UNIV finite])
  ultimately have "finite (UNIV :: nat set)" by (rule finite_imageD [rotated])
  then show False by simp
qed

lemma seed_collision_exists:
  fixes sha512 :: "bytes \<Rightarrow> 512 word"
  shows "\<exists>n n'. n \<noteq> n' \<and>
           random_state sha512 np None (Some key) (replicate (Suc n) CHR ''a'')
             = random_state sha512 np None (Some key) (replicate (Suc n') CHR ''a'')"
proof -
  from collision_exists [of "\<lambda>n. sha512 (replicate (Suc n) CHR ''a'' @ key)"]
  obtain n n' where nn: "n \<noteq> n'"
    and "sha512 (replicate (Suc n) CHR ''a'' @ key) = sha512 (replicate (Suc n') CHR ''a'' @ key)"
    by blast
  then have "random_state sha512 np None (Some key) (replicate (Suc n) CHR ''a'')
          = random_state sha512 np None (Some key) (replicate (Suc n') CHR ''a'')"
    by (simp only: random_state_key getenv_default_def keyed_seed_def option.case)
  with nn show ?thesis by blast
qed





section \<open>Dataframes and the \<^verbatim>\<open>Ipr\<close> accessor (vector\_ipr.Ipr)\<close>

text \<open>
  A dataframe has named columns and rows; a row holds one value per column and its
  geometry, \<open>None\<close> in a plain dataframe and for a missing geometry. \<open>is_geo\<close> says
  whether the dataframe is a \<^verbatim>\<open>GeoDataFrame\<close>. Geometries are values of a type \<open>'g\<close>;
  pygeos works on them. \<^verbatim>\<open>df[a:b]\<close> on row
  numbers that are not negative is \<open>slice\<close>, and the concatenation of a list of
  dataframes (\<^verbatim>\<open>DataFrameConcatenated\<close>, \<^verbatim>\<open>GeoDataFrameConcatenated\<close>) is the concatenation
  of their rows.
\<close>

record 'g dataframe =
  column_names :: "string list"
  is_geo :: bool
  rows :: "(pyval list \<times> 'g option) list"

definition slice :: "'a list \<Rightarrow> nat \<Rightarrow> nat \<Rightarrow> 'a list" where
  "slice xs a b = take (b - a) (drop a xs)"

text \<open>
  The accessor object: its dataframe and the key set by \<^verbatim>\<open>set_secret_key\<close>. The class
  constant \<^verbatim>\<open>N\<close> is 1000.
\<close>

record 'g ipr =
  df :: "'g dataframe"
  self_key :: "bytes option"

definition N :: nat where "N = 1000"


section \<open>Geometry embedding (vector\_ipr.Ipr.embed\_geometries)\<close>


fun take_all :: "'a list \<Rightarrow> int list \<Rightarrow> py_error + 'a list" where
  "take_all xs [] = Inr []"
| "take_all xs (i # is) =
     (case py_get xs i of
        Inl e \<Rightarrow> Inl e
      | Inr x \<Rightarrow> (case take_all xs is of Inl e \<Rightarrow> Inl e | Inr ys \<Rightarrow> Inr (x # ys)))"







subsection \<open>The frame of the embedding\<close>



lemma slice_take: "a \<le> b \<Longrightarrow> take a xs @ slice xs a b = take b xs"
proof -
  assume "a \<le> b"
  then have "take b xs = take (a + (b - a)) xs" by simp
  also have "\<dots> = take a xs @ take (b - a) (drop a xs)" by (rule take_add)
  finally show ?thesis by (simp add: slice_def)
qed


lemma take_all_length: "take_all xs is = Inr ys \<Longrightarrow> length ys = length is"
  by (induction "is" arbitrary: ys) (auto split: sum.splits)









section \<open>Fictitious entries (vector\_ipr.Ipr.embed\_fictitious\_entries)\<close>

















subsection \<open>Where the rows are put\<close>







subsection \<open>The parts of the dataframe\<close>








subsection \<open>Looking a row up\<close>





subsection \<open>Embedding and detection\<close>











end
